theory Spec2Isabelle
  imports Complex_Main "HOL-Library.Word" "HOL-Library.Sublist"
begin

unbundle bit_operations_syntax

section \<open>The persistent vector \<open>immu::vektor\<close>\<close>

text \<open>
  A shallow embedding of \<^verbatim>\<open>src/immu/vektor.hpp\<close>.

  \<^item> \<^verbatim>\<open>std::size_t\<close> is a 64-bit word, \<^verbatim>\<open>unsigned\<close> a 32-bit word; a
    \<^verbatim>\<open>std::ptrdiff_t\<close> argument is an \<open>int\<close> that is converted to a 64-bit word
    where the source converts it.
  \<^item> Nodes live in an explicit store: a list of nodes, the address of a node being its
    position. \<^verbatim>\<open>std::make_shared\<close> appends a node; nodes are never released
    (reference counts are not modelled). A \<^verbatim>\<open>shared_ptr\<close> is an optional address.
  \<^item> \<^verbatim>\<open>std::array<T, 32>\<close> is a list; the value-initialised element \<^verbatim>\<open>T{}\<close>
    is \<open>default\<close>.
  \<^item> An Isabelle name cannot end with an underscore: the private members
    \<^verbatim>\<open>size_\<close>, \<^verbatim>\<open>array_for_\<close>, ... are written \<open>size_'\<close>, \<open>array_for_'\<close>, ...
  \<^item> Assertions are active (the source never defines \<^verbatim>\<open>NDEBUG\<close>). A failed
    \<^verbatim>\<open>assert\<close> (with the text of the asserted condition), a null or wrongly typed node
    access, a read outside a leaf and a shift by at least the width of its operand are
    values of type \<open>error\<close>.
\<close>

subsection \<open>Constants and types\<close>

type_synonym size_t = "64 word"
type_synonym unsigned = "32 word"

definition branching_log :: nat where
  "branching_log = 5"

definition branching :: nat where
  "branching = 2 ^ branching_log"

definition branching_mask :: nat where
  "branching_mask = branching - 1"

type_synonym node_ptr = "nat option"

datatype 'a vektor_node = Leaf "'a list" | Inner "node_ptr list"

type_synonym 'a heap = "'a vektor_node list"

datatype error =
    AssertionFailed string
  | NullPointer
  | BadVariantAccess
  | UndefinedShift
  | OutOfRange

record vektor =
  size_' :: size_t
  shift_' :: unsigned
  root_' :: node_ptr
  tail_' :: node_ptr

subsection \<open>Node access and allocation\<close>

text \<open>\<^verbatim>\<open>p->inner()\<close> and \<^verbatim>\<open>p->leaf()\<close>: the pointer must not be null and the
  node must hold the requested alternative.\<close>

definition inner :: "'a heap \<Rightarrow> node_ptr \<Rightarrow> error + node_ptr list" where
  "inner h p =
     (case p of
        None \<Rightarrow> Inl NullPointer
      | Some a \<Rightarrow>
          if a < length h
          then (case h ! a of Inner cs \<Rightarrow> Inr cs | Leaf xs \<Rightarrow> Inl BadVariantAccess)
          else Inl NullPointer)"

definition leaf :: "'a heap \<Rightarrow> node_ptr \<Rightarrow> error + 'a list" where
  "leaf h p =
     (case p of
        None \<Rightarrow> Inl NullPointer
      | Some a \<Rightarrow>
          if a < length h
          then (case h ! a of Leaf xs \<Rightarrow> Inr xs | Inner cs \<Rightarrow> Inl BadVariantAccess)
          else Inl NullPointer)"

text \<open>A reference to the leaf array of a node is the address of the node.\<close>

definition leaf_ref :: "'a heap \<Rightarrow> node_ptr \<Rightarrow> error + nat" where
  "leaf_ref h p =
     (case leaf h p of Inl e \<Rightarrow> Inl e | Inr xs \<Rightarrow> Inr (the p))"

definition make_node_' :: "'a heap \<Rightarrow> 'a vektor_node \<Rightarrow> nat \<times> 'a heap" where
  "make_node_' h n = (length h, h @ [n])"

text \<open>Aggregate initialisation \<^verbatim>\<open>inner_t{{...}}\<close> and \<^verbatim>\<open>leaf_t{{...}}\<close>: the given
  slots first, the remaining ones null or value-initialised.\<close>

definition inner_t :: "node_ptr list \<Rightarrow> 'a vektor_node" where
  "inner_t ps = Inner (ps @ replicate (branching - length ps) None)"

definition leaf_t :: "'a::default list \<Rightarrow> 'a vektor_node" where
  "leaf_t xs = Leaf (xs @ replicate (branching - length xs) default)"

text \<open>For \<^verbatim>\<open>T = int\<close> the value-initialised element is zero.\<close>

instantiation int :: default
begin

definition default_int :: int where
  "default_int = 0"

instance ..

end

subsection \<open>The sentinels and the empty vector\<close>

definition heap0 :: "'a::default heap" where
  "heap0 = [inner_t [], leaf_t []]"

definition empty_inner_' :: node_ptr where
  "empty_inner_' = Some 0"

definition empty_leaf_' :: node_ptr where
  "empty_leaf_' = Some 1"

definition empty_' :: vektor where
  "empty_' = \<lparr>size_' = 0, shift_' = of_nat branching_log,
             root_' = empty_inner_', tail_' = empty_leaf_'\<rparr>"

subsection \<open>Indexed access\<close>

definition tail_offset_' :: "vektor \<Rightarrow> size_t" where
  "tail_offset_' v =
     (if size_' v < 32 then 0
      else push_bit branching_log (drop_bit branching_log (size_' v - 1)))"

text \<open>The loop of \<^verbatim>\<open>array_for_\<close>. The level is unsigned: subtracting
  \<^verbatim>\<open>branching_log\<close> from a smaller level wraps around, and the next shift is then
  by more than 63 bits.\<close>

function descend :: "'a heap \<Rightarrow> unsigned \<Rightarrow> size_t \<Rightarrow> node_ptr \<Rightarrow> error + node_ptr" where
  "descend h level index node =
     (if level = 0 then Inr node
      else
        (case inner h node of
           Inl e \<Rightarrow> Inl e
         | Inr cs \<Rightarrow>
             if 64 \<le> level then Inl UndefinedShift
             else
               descend h (level - of_nat branching_log) index
                 (cs ! unat (drop_bit (unat level) index AND of_nat branching_mask))))"
  by pat_completeness auto
termination
proof (relation "measure (\<lambda>(h, level, index, node). if level < 64 then unat level + 1 else 0)")
  show "wf (measure (\<lambda>(h :: 'a heap, level :: unsigned, index :: size_t, node :: node_ptr).
          if level < 64 then unat level + 1 else 0))"
    by simp
next
  fix h :: "'a heap" and level :: unsigned and index :: size_t and node :: node_ptr
    and cs :: "node_ptr list"
  assume nz: "level \<noteq> 0" and lt: "\<not> 64 \<le> level"
  have l64: "unat level < 64"
    using lt by (simp add: word_le_nat_alt)
  have l0: "0 < unat level"
    using nz by (simp add: unat_gt_0)
  show "((h, level - of_nat branching_log, index,
           cs ! unat (drop_bit (unat level) index AND of_nat branching_mask)),
         (h, level, index, node))
        \<in> measure (\<lambda>(h, level, index, node). if level < 64 then unat level + 1 else 0)"
  proof (cases "5 \<le> unat level")
    case True
    then have "unat (level - 5) = unat level - 5"
      by (simp add: unat_sub word_le_nat_alt)
    with True l64 l0 show ?thesis
      by (simp add: branching_log_def word_less_nat_alt)
  next
    case False
    then have "level < 5"
      by (simp add: word_less_nat_alt)
    then have "\<not> level - 5 < 64"
      by (simp add: word_less_nat_alt unat_sub_if_size word_size)
    with l64 show ?thesis
      by (simp add: branching_log_def word_less_nat_alt)
  qed
qed

definition array_for_' :: "'a heap \<Rightarrow> vektor \<Rightarrow> size_t \<Rightarrow> error + nat" where
  "array_for_' h v index =
     (if \<not> index < size_' v then Inl (AssertionFailed ''index < size_'')
      else if index \<ge> tail_offset_' v then leaf_ref h (tail_' v)
      else
        (case descend h (shift_' v) index (root_' v) of
           Inl e \<Rightarrow> Inl e
         | Inr node \<Rightarrow> leaf_ref h node))"

text \<open>\<^verbatim>\<open>operator[]\<close>.\<close>

definition at_vektor :: "'a heap \<Rightarrow> vektor \<Rightarrow> size_t \<Rightarrow> error + 'a" where
  "at_vektor h v index =
     (case array_for_' h v index of
        Inl e \<Rightarrow> Inl e
      | Inr a \<Rightarrow>
          (case h ! a of
             Leaf arr \<Rightarrow> Inr (arr ! unat (index AND of_nat branching_mask))
           | Inner cs \<Rightarrow> Inl BadVariantAccess))"

definition size_vektor :: "vektor \<Rightarrow> size_t" where
  "size_vektor v = size_' v"

definition empty_vektor :: "vektor \<Rightarrow> bool" where
  "empty_vektor v \<longleftrightarrow> size_' v = 0"

subsection \<open>Appending\<close>

text \<open>\<^verbatim>\<open>make_path_\<close>: the level is unsigned and only compared with zero, so the
  recursion ends because 5 is invertible modulo \<open>2 ^ 32\<close>.\<close>

function make_path_' :: "'a heap \<Rightarrow> unsigned \<Rightarrow> node_ptr \<Rightarrow> node_ptr \<times> 'a heap" where
  "make_path_' h level node =
     (if level = 0 then (node, h)
      else
        (let (p, h1) = make_path_' h (level - of_nat branching_log) node;
             (a, h2) = make_node_' h1 (inner_t [p])
         in (Some a, h2)))"
  by pat_completeness auto
termination
proof (relation "measure (\<lambda>(h, level, node). unat (level * 3435973837))")
  show "wf (measure (\<lambda>(h :: 'a heap, level :: unsigned, node :: node_ptr).
          unat (level * 3435973837)))"
    by simp
next
  fix h :: "'a heap" and level :: unsigned and node :: node_ptr
  assume nz: "level \<noteq> 0"
  have inv5: "(5 :: unsigned) * 3435973837 = 1"
    by simp
  have step: "(level - 5) * 3435973837 = level * 3435973837 - 1"
    using inv5 by (simp add: algebra_simps)
  have "level * 3435973837 \<noteq> 0"
  proof
    assume z: "level * 3435973837 = 0"
    have "level * 3435973837 * 5 = level * (3435973837 * 5)"
      by (simp only: mult.assoc)
    also have "\<dots> = level * (5 * 3435973837)"
      by (simp only: mult.commute)
    also have "\<dots> = level"
      by (simp only: inv5 mult_1_right)
    finally show False
      using z nz by simp
  qed
  then have "unat (level * 3435973837 - 1) < unat (level * 3435973837)"
    by (simp add: unat_minus_one unat_gt_0)
  then have m: "unat ((level - 5) * 3435973837) < unat (level * 3435973837)"
    by (simp only: step)
  have five: "of_nat branching_log = (5 :: unsigned)"
    by (simp add: branching_log_def)
  show "((h, level - of_nat branching_log, node), (h, level, node))
      \<in> measure (\<lambda>(h, level, node). unat (level * 3435973837))"
    using m by (simp only: five in_measure split_conv)
qed

text \<open>The assignment \<^verbatim>\<open>new_parent[idx] = next_node\<close> into a node of the store.\<close>

definition set_slot :: "'a heap \<Rightarrow> nat \<Rightarrow> nat \<Rightarrow> node_ptr \<Rightarrow> 'a heap" where
  "set_slot h a idx p =
     (case h ! a of Inner cs \<Rightarrow> h[a := Inner (cs[idx := p])] | Leaf xs \<Rightarrow> h)"

function push_tail_' ::
  "'a heap \<Rightarrow> vektor \<Rightarrow> unsigned \<Rightarrow> node_ptr \<Rightarrow> node_ptr \<Rightarrow> error + (node_ptr \<times> 'a heap)" where
  "push_tail_' h v level parent_' tail =
     (case inner h parent_' of
        Inl e \<Rightarrow> Inl e
      | Inr parent \<Rightarrow>
          (let (a, h1) = make_node_' h (Inner parent) in
           if 64 \<le> level then Inl UndefinedShift
           else
             (let idx = unat (drop_bit (unat level) (size_' v - 1) AND of_nat branching_mask) in
              (case (if level = of_nat branching_log then Inr (tail, h1)
                     else
                       (case parent ! idx of
                          Some c \<Rightarrow>
                            push_tail_' h1 v (level - of_nat branching_log) (Some c) tail
                        | None \<Rightarrow>
                            Inr (make_path_' h1 (level - of_nat branching_log) tail))) of
                 Inl e \<Rightarrow> Inl e
               | Inr (next_node, h2) \<Rightarrow> Inr (Some a, set_slot h2 a idx next_node)))))"
  by pat_completeness auto
termination
proof (relation "measure (\<lambda>(h, v, level, parent, tail). if level < 64 then unat level + 1 else 0)")
  show "wf (measure (\<lambda>(h :: 'a heap, v :: vektor, level :: unsigned, parent :: node_ptr,
          tail :: node_ptr). if level < 64 then unat level + 1 else 0))"
    by simp
next
  fix h h1 :: "'a heap" and v :: vektor and level :: unsigned and parent_' tail :: node_ptr
    and c :: nat
  assume lt: "\<not> 64 \<le> level" and ne: "level \<noteq> of_nat branching_log"
  have l64: "unat level < 64"
    using lt by (simp add: word_le_nat_alt)
  show "((h1, v, level - of_nat branching_log, Some c, tail), (h, v, level, parent_', tail))
        \<in> measure (\<lambda>(h, v, level, parent, tail). if level < 64 then unat level + 1 else 0)"
  proof (cases "5 \<le> unat level")
    case True
    then have "unat (level - 5) = unat level - 5"
      by (simp add: unat_sub word_le_nat_alt)
    with True l64 show ?thesis
      by (simp add: branching_log_def word_less_nat_alt)
  next
    case False
    then have "level < 5"
      by (simp add: word_less_nat_alt)
    then have "\<not> level - 5 < 64"
      by (simp add: word_less_nat_alt unat_sub_if_size word_size)
    with l64 show ?thesis
      by (simp add: branching_log_def word_less_nat_alt)
  qed
qed

text \<open>Writing into the leaf array of a node of the store.\<close>

definition set_leaf :: "'a heap \<Rightarrow> nat \<Rightarrow> ('a list \<Rightarrow> 'a list) \<Rightarrow> 'a heap" where
  "set_leaf h a f =
     (case h ! a of Leaf xs \<Rightarrow> h[a := Leaf (f xs)] | Inner cs \<Rightarrow> h)"

definition push_back :: "'a::default heap \<Rightarrow> vektor \<Rightarrow> 'a \<Rightarrow> error + (vektor \<times> 'a heap)" where
  "push_back h v val =
     (let tail_size = size_' v - tail_offset_' v in
      if tail_size < of_nat branching then
        (case leaf h (tail_' v) of
           Inl e \<Rightarrow> Inl e
         | Inr old_tail \<Rightarrow>
             (let (new_tail_node, h1) = make_node_' h (leaf_t []);
                  h2 = set_leaf h1 new_tail_node
                         (\<lambda>new_tail. take (unat tail_size) old_tail @ drop (unat tail_size) new_tail);
                  h3 = set_leaf h2 new_tail_node (\<lambda>new_tail. new_tail[unat tail_size := val])
              in Inr (\<lparr>size_' = size_' v + 1, shift_' = shift_' v, root_' = root_' v,
                        tail_' = Some new_tail_node\<rparr>, h3)))
      else
        (let (new_tail_node, h1) = make_node_' h (leaf_t [val]) in
         if 32 \<le> shift_' v then Inl UndefinedShift
         else if drop_bit branching_log (size_' v) > ucast (push_bit (unat (shift_' v)) (1 :: unsigned))
         then
           (let (path, h2) = make_path_' h1 (shift_' v) (tail_' v);
                (new_root, h3) = make_node_' h2 (inner_t [root_' v, path])
            in Inr (\<lparr>size_' = size_' v + 1, shift_' = shift_' v + of_nat branching_log,
                      root_' = Some new_root, tail_' = Some new_tail_node\<rparr>, h3))
         else
           (case push_tail_' h1 v (shift_' v) (root_' v) (tail_' v) of
              Inl e \<Rightarrow> Inl e
            | Inr (new_root, h2) \<Rightarrow>
                Inr (\<lparr>size_' = size_' v + 1, shift_' = shift_' v, root_' = new_root,
                      tail_' = Some new_tail_node\<rparr>, h2))))"

text \<open>Appending the elements of a list one after the other.\<close>

fun push_back_all :: "'a::default heap \<Rightarrow> vektor \<Rightarrow> 'a list \<Rightarrow> error + (vektor \<times> 'a heap)" where
  "push_back_all h v [] = Inr (v, h)"
| "push_back_all h v (x # xs) =
     (case push_back h v x of Inl e \<Rightarrow> Inl e | Inr (v', h') \<Rightarrow> push_back_all h' v' xs)"

subsection \<open>The cursor\<close>

text \<open>A position in a leaf array (\<^verbatim>\<open>leaf_t::const_iterator\<close>) is the address of the
  node and an offset into its array.\<close>

record iterator =
  v_' :: vektor
  i_' :: size_t
  base_' :: size_t
  curr_' :: "nat \<times> int"

definition begin_vektor :: "'a heap \<Rightarrow> vektor \<Rightarrow> error + iterator" where
  "begin_vektor h v =
     (case array_for_' h v 0 of
        Inl e \<Rightarrow> Inl e
      | Inr a \<Rightarrow> Inr \<lparr>v_' = v, i_' = 0, base_' = 0, curr_' = (a, 0)\<rparr>)"

definition end_vektor :: "'a heap \<Rightarrow> vektor \<Rightarrow> error + iterator" where
  "end_vektor h v =
     (let i = size_' v;
          base = i - (i AND of_nat branching_mask)
      in case array_for_' h v (i - 1) of
           Inl e \<Rightarrow> Inl e
         | Inr a \<Rightarrow> Inr \<lparr>v_' = v, i_' = i, base_' = base, curr_' = (a, uint (i - base))\<rparr>)"

definition increment :: "'a heap \<Rightarrow> iterator \<Rightarrow> error + iterator" where
  "increment h it =
     (if \<not> i_' it < size_' (v_' it) then Inl (AssertionFailed ''i_ < v_->size_'')
      else
        (let it1 = it\<lparr>i_' := i_' it + 1\<rparr> in
         if i_' it1 - base_' it1 < of_nat branching
         then Inr (it1\<lparr>curr_' := (fst (curr_' it1), snd (curr_' it1) + 1)\<rparr>)
         else
           (let it2 = it1\<lparr>base_' := base_' it1 + of_nat branching\<rparr> in
            case array_for_' h (v_' it2) (i_' it2) of
              Inl e \<Rightarrow> Inl e
            | Inr a \<Rightarrow> Inr (it2\<lparr>curr_' := (a, 0)\<rparr>))))"

definition decrement :: "'a heap \<Rightarrow> iterator \<Rightarrow> error + iterator" where
  "decrement h it =
     (if \<not> i_' it > 0 then Inl (AssertionFailed ''i_ > 0'')
      else
        (let it1 = it\<lparr>i_' := i_' it - 1\<rparr> in
         if i_' it1 \<ge> base_' it1
         then Inr (it1\<lparr>curr_' := (fst (curr_' it1), snd (curr_' it1) - 1)\<rparr>)
         else
           (let it2 = it1\<lparr>base_' := base_' it1 - of_nat branching\<rparr> in
            case array_for_' h (v_' it2) (i_' it2) of
              Inl e \<Rightarrow> Inl e
            | Inr a \<Rightarrow> Inr (it2\<lparr>curr_' := (a, int branching - 1)\<rparr>))))"

definition advance :: "'a heap \<Rightarrow> iterator \<Rightarrow> int \<Rightarrow> error + iterator" where
  "advance h it n =
     (if \<not> (n \<le> 0 \<or> i_' it + of_int n \<le> size_' (v_' it))
      then Inl (AssertionFailed ''n <= 0 || i_ + static_cast<std::size_t>(n) <= v_->size_'')
      else if \<not> (n \<ge> 0 \<or> of_int (- n) \<le> i_' it)
      then Inl (AssertionFailed ''n >= 0 || static_cast<std::size_t>(-n) <= i_'')
      else
        (let it1 = it\<lparr>i_' := i_' it + of_int n\<rparr> in
         if i_' it1 \<le> base_' it1 \<and> i_' it1 - base_' it1 < of_nat branching
         then Inr (it1\<lparr>curr_' := (fst (curr_' it1), snd (curr_' it1) + n)\<rparr>)
         else
           (let it2 = it1\<lparr>base_' := i_' it1 - (i_' it1 AND of_nat branching_mask)\<rparr> in
            case array_for_' h (v_' it2) (i_' it2) of
              Inl e \<Rightarrow> Inl e
            | Inr a \<Rightarrow> Inr (it2\<lparr>curr_' := (a, uint (i_' it2 - base_' it2))\<rparr>))))"

definition equal :: "iterator \<Rightarrow> iterator \<Rightarrow> bool" where
  "equal it other \<longleftrightarrow> i_' it = i_' other"

definition dereference :: "'a heap \<Rightarrow> iterator \<Rightarrow> error + 'a" where
  "dereference h it =
     (let (a, off) = curr_' it in
      if 0 \<le> off \<and> off < int branching \<and> a < length h
      then (case h ! a of
              Leaf arr \<Rightarrow> Inr (arr ! nat off)
            | Inner cs \<Rightarrow> Inl BadVariantAccess)
      else Inl OutOfRange)"

subsection \<open>Traversals\<close>

text \<open>The loop \<^verbatim>\<open>for (; first != last; ++first) out.push_back(*first)\<close>.\<close>

function iterate :: "'a heap \<Rightarrow> iterator \<Rightarrow> iterator \<Rightarrow> error + 'a list" where
  "iterate h first stop =
     (if equal first stop then Inr []
      else
        (case dereference h first of
           Inl e \<Rightarrow> Inl e
         | Inr x \<Rightarrow>
             (case increment h first of
                Inl e \<Rightarrow> Inl e
              | Inr first' \<Rightarrow>
                  (case iterate h first' stop of
                     Inl e \<Rightarrow> Inl e
                   | Inr xs \<Rightarrow> Inr (x # xs)))))"
  by pat_completeness auto
termination
proof (relation "measure (\<lambda>(h, first, stop). unat (size_' (v_' first)) - unat (i_' first))")
  show "wf (measure (\<lambda>(h :: 'a heap, first :: iterator, stop :: iterator).
          unat (size_' (v_' first)) - unat (i_' first)))"
    by simp
next
  fix h :: "'a heap" and first stop first' :: iterator
  assume inc: "increment h first = Inr first'"
  then have lt: "i_' first < size_' (v_' first)"
    by (simp add: increment_def split: if_splits)
  have "v_' first' = v_' first \<and> i_' first' = i_' first + 1"
    using inc by (auto simp: increment_def Let_def split: if_splits sum.splits)
  moreover have ult: "unat (i_' first) < unat (size_' (v_' first))"
    using lt by (simp add: word_less_nat_alt)
  moreover have "unat (size_' (v_' first)) < 2 ^ 64"
    using unsigned_less [of "size_' (v_' first)", where 'a = nat] by simp
  then have "unat (i_' first + 1) = unat (i_' first) + 1"
    using ult by (simp add: unat_add_lem [THEN iffD1])
  ultimately show "((h, first', stop), (h, first, stop))
      \<in> measure (\<lambda>(h, first, stop). unat (size_' (v_' first)) - unat (i_' first))"
    by simp
qed

definition forward :: "'a heap \<Rightarrow> vektor \<Rightarrow> error + 'a list" where
  "forward h v =
     (case begin_vektor h v of
        Inl e \<Rightarrow> Inl e
      | Inr first \<Rightarrow>
          (case end_vektor h v of
             Inl e \<Rightarrow> Inl e
           | Inr stop \<Rightarrow> iterate h first stop))"

text \<open>The same loop over \<^verbatim>\<open>std::reverse_iterator\<close>: dereferencing decrements a copy of
  the underlying cursor and reads there, incrementing decrements the underlying cursor.\<close>

function iterate_reverse :: "'a heap \<Rightarrow> iterator \<Rightarrow> iterator \<Rightarrow> error + 'a list" where
  "iterate_reverse h current stop =
     (if equal current stop then Inr []
      else
        (case decrement h current of
           Inl e \<Rightarrow> Inl e
         | Inr tmp \<Rightarrow>
             (case dereference h tmp of
                Inl e \<Rightarrow> Inl e
              | Inr x \<Rightarrow>
                  (case decrement h current of
                     Inl e \<Rightarrow> Inl e
                   | Inr current' \<Rightarrow>
                       (case iterate_reverse h current' stop of
                          Inl e \<Rightarrow> Inl e
                        | Inr xs \<Rightarrow> Inr (x # xs))))))"
  by pat_completeness auto
termination
proof (relation "measure (\<lambda>(h, current, stop). unat (i_' current))")
  show "wf (measure (\<lambda>(h :: 'a heap, current :: iterator, stop :: iterator). unat (i_' current)))"
    by simp
next
  fix h :: "'a heap" and current stop current' :: iterator
  assume dec: "decrement h current = Inr current'"
  then have nz: "i_' current \<noteq> 0"
    by (auto simp: decrement_def word_greater_zero_iff split: if_splits)
  have "i_' current' = i_' current - 1"
    using dec by (auto simp: decrement_def Let_def split: if_splits sum.splits)
  moreover have "unat (i_' current - 1) < unat (i_' current)"
    using nz by (simp add: unat_minus_one unat_gt_0)
  ultimately show "((h, current', stop), (h, current, stop))
      \<in> measure (\<lambda>(h, current, stop). unat (i_' current))"
    by simp
qed

definition backward :: "'a heap \<Rightarrow> vektor \<Rightarrow> error + 'a list" where
  "backward h v =
     (case end_vektor h v of
        Inl e \<Rightarrow> Inl e
      | Inr rbegin \<Rightarrow>
          (case begin_vektor h v of
             Inl e \<Rightarrow> Inl e
           | Inr rend \<Rightarrow> iterate_reverse h rbegin rend))"

section \<open>Statements of the specification\<close>

text \<open>Written from the specification (section 4.4, ``advance by n''), to be compared with
  \<open>advance\<close>: update \<open>i += n\<close>; if the new \<open>i\<close> still satisfies \<open>base \<le> i\<close> and
  \<open>i - base < B\<close>, step \<open>curr\<close> by \<open>n\<close>; else set \<open>base = i - (i & (B-1))\<close> and
  \<open>curr = start of array_for(i) + (i - base)\<close>.\<close>

definition advance_spec :: "'a heap \<Rightarrow> iterator \<Rightarrow> int \<Rightarrow> error + iterator" where
  "advance_spec h it n =
     (let i = i_' it + of_int n in
      if base_' it \<le> i \<and> i - base_' it < of_nat branching
      then Inr (it\<lparr>i_' := i, curr_' := (fst (curr_' it), snd (curr_' it) + n)\<rparr>)
      else
        (let base = i - (i AND of_nat branching_mask) in
         case array_for_' h (v_' it) i of
           Inl e \<Rightarrow> Inl e
         | Inr a \<Rightarrow> Inr (it\<lparr>i_' := i, base_' := base, curr_' := (a, uint (i - base))\<rparr>)))"

text \<open>Written from the specification (section 3, invariant 4): a shift \<open>s\<close> is admissible
  when it is a multiple of \<open>L\<close> with \<open>B ^ (s / L + 1) \<ge> tail_offset\<close>; the invariant asks for
  the smallest admissible shift, except in the empty state.\<close>

definition admissible :: "vektor \<Rightarrow> nat \<Rightarrow> bool" where
  "admissible v s \<longleftrightarrow>
     branching_log dvd s \<and> unat (tail_offset_' v) \<le> branching ^ (s div branching_log + 1)"

definition smallest_admissible :: "vektor \<Rightarrow> bool" where
  "smallest_admissible v \<longleftrightarrow>
     admissible v (unat (shift_' v)) \<and> (\<forall>s<unat (shift_' v). \<not> admissible v s)"

definition shift_invariant_spec :: "vektor \<Rightarrow> bool" where
  "shift_invariant_spec v \<longleftrightarrow>
     smallest_admissible v \<or> (size_' v = 0 \<and> unat (shift_' v) = branching_log)"

text \<open>The same with the smallest positive multiple of \<open>L\<close>.\<close>

definition smallest_positive_admissible :: "vektor \<Rightarrow> bool" where
  "smallest_positive_admissible v \<longleftrightarrow>
     0 < unat (shift_' v) \<and> admissible v (unat (shift_' v)) \<and>
     (\<forall>s<unat (shift_' v). 0 < s \<longrightarrow> \<not> admissible v s)"

section \<open>Reachable vectors and their representation\<close>

text \<open>\<open>built h v xs\<close>: in the store \<open>h\<close>, the vector \<open>v\<close> was obtained from the empty vector
  by appending the elements of \<open>xs\<close> in order; other vectors of the same program may have
  been appended to in between.\<close>

inductive built :: "'a::default heap \<Rightarrow> vektor \<Rightarrow> 'a list \<Rightarrow> bool" where
  built_empty: "built heap0 empty_' []"
| built_push: "built h v xs \<Longrightarrow> push_back h v x = Inr (v', h') \<Longrightarrow> built h' v' (xs @ [x])"
| built_other:
    "built h v xs \<Longrightarrow> built h w ys \<Longrightarrow> push_back h w y = Inr (w', h') \<Longrightarrow> built h' v xs"

text \<open>The vector built from a list, starting with the sentinels only.\<close>

definition from_list :: "'a::default list \<Rightarrow> error + (vektor \<times> 'a heap)" where
  "from_list xs = push_back_all heap0 empty_' xs"

definition shift_of :: "error + (vektor \<times> 'a heap) \<Rightarrow> error + unsigned" where
  "shift_of r = map_sum id (\<lambda>(v, h). shift_' v) r"

text \<open>The vector built from the single element 7, and a cursor at its first element.\<close>

definition heap_one :: "int heap" where
  "heap_one = [inner_t [], leaf_t [], leaf_t [7]]"

definition vektor_one :: vektor where
  "vektor_one = \<lparr>size_' = 1, shift_' = 5, root_' = Some 0, tail_' = Some 2\<rparr>"

text \<open>The vector built from the 33 elements 0..32: its main tree holds one leaf.\<close>

definition vektor_33 :: vektor where
  "vektor_33 = \<lparr>size_' = 33, shift_' = 5, root_' = Some 35, tail_' = Some 34\<rparr>"

definition vektor_of :: "error + (vektor \<times> 'a heap) \<Rightarrow> error + vektor" where
  "vektor_of r = map_sum id fst r"

definition begin_one :: iterator where
  "begin_one = \<lparr>v_' = vektor_one, i_' = 0, base_' = 0, curr_' = (2, 0)\<rparr>"

text \<open>The two traversals of the vector built from a list.\<close>

definition forward_of :: "error + (vektor \<times> 'a heap) \<Rightarrow> error + 'a list" where
  "forward_of r = (case r of Inl e \<Rightarrow> Inl e | Inr (v, h) \<Rightarrow> forward h v)"

definition backward_of :: "error + (vektor \<times> 'a heap) \<Rightarrow> error + 'a list" where
  "backward_of r = (case r of Inl e \<Rightarrow> Inl e | Inr (v, h) \<Rightarrow> backward h v)"

text \<open>The number of nodes allocated between two stores.\<close>

definition allocated :: "'a heap \<Rightarrow> 'a heap \<Rightarrow> nat" where
  "allocated h h' = length h' - length h"

text \<open>The slots of a node: those of an inner node of the store, and 32 null slots where
  the pointer is null or does not point to an inner node.\<close>

definition children :: "'a heap \<Rightarrow> node_ptr \<Rightarrow> node_ptr list" where
  "children h p = (case inner h p of Inl e \<Rightarrow> replicate branching None | Inr cs \<Rightarrow> cs)"

text \<open>The slot of index \<open>i\<close> in a node at depth \<open>d\<close>,
  \<^verbatim>\<open>(i >> (branching_log * d)) & branching_mask\<close>, and the depth of the main tree of a
  vector, \<^verbatim>\<open>shift_ / branching_log\<close>.\<close>

definition slot :: "nat \<Rightarrow> size_t \<Rightarrow> nat" where
  "slot d i = unat (drop_bit (branching_log * d) i AND of_nat branching_mask)"

definition depth :: "vektor \<Rightarrow> nat" where
  "depth v = unat (shift_' v) div branching_log"

text \<open>\<open>spine_nodes h d i p\<close>: the addresses of the inner nodes on the path from the node
  \<open>p\<close> at depth \<open>d\<close> towards the leaf of index \<open>i\<close>, from \<open>p\<close> downwards.\<close>

primrec spine_nodes :: "'a heap \<Rightarrow> nat \<Rightarrow> size_t \<Rightarrow> node_ptr \<Rightarrow> nat list" where
  "spine_nodes h 0 i p = []"
| "spine_nodes h (Suc d) i p =
     (case p of
        None \<Rightarrow> []
      | Some a \<Rightarrow> a # spine_nodes h d i (children h p ! slot (Suc d) i))"

text \<open>\<open>path_copied h h' d i old new tail\<close>: in the store \<open>h'\<close> the node \<open>new\<close> at depth \<open>d\<close>
  is an inner node whose slots are the slots that \<open>old\<close> has in the store \<open>h\<close> (the same
  pointers, hence the same subtrees), except for the slot of index \<open>i\<close>; the node in that
  slot is related in the same way to the node in that slot of \<open>old\<close>; and at depth 0 the
  path ends in the node \<open>tail\<close>.\<close>

primrec path_copied ::
  "'a heap \<Rightarrow> 'a heap \<Rightarrow> nat \<Rightarrow> size_t \<Rightarrow> node_ptr \<Rightarrow> node_ptr \<Rightarrow> node_ptr \<Rightarrow> bool" where
  "path_copied h h' 0 i old new tail \<longleftrightarrow> new = tail"
| "path_copied h h' (Suc d) i old new tail \<longleftrightarrow>
     (case inner h' new of
        Inl e \<Rightarrow> False
      | Inr cs \<Rightarrow>
          cs = (children h old)[slot (Suc d) i := cs ! slot (Suc d) i] \<and>
          path_copied h h' d i (children h old ! slot (Suc d) i) (cs ! slot (Suc d) i) tail)"

text \<open>The tail offset of a vector of \<open>n\<close> elements, on natural numbers.\<close>

definition toff :: "nat \<Rightarrow> nat" where
  "toff n = (if n < 32 then 0 else (n - 1) div 32 * 32)"

text \<open>\<open>rep A h d p xs\<close>: the node \<open>p\<close> is the root of a tree of depth \<open>d\<close> (a leaf when
  \<open>d = 0\<close>) whose nodes have addresses in \<open>A\<close> and whose leaves hold, from left to right and
  without gaps, the elements \<open>xs\<close>.\<close>

primrec rep :: "nat set \<Rightarrow> 'a heap \<Rightarrow> nat \<Rightarrow> node_ptr \<Rightarrow> 'a list \<Rightarrow> bool" where
  "rep A h 0 p xs \<longleftrightarrow>
     (case p of
        None \<Rightarrow> False
      | Some a \<Rightarrow> a \<in> A \<and> a < length h \<and> h ! a = Leaf xs \<and> length xs = 32)"
| "rep A h (Suc d) p xs \<longleftrightarrow>
     (case p of
        None \<Rightarrow> False
      | Some a \<Rightarrow>
          a \<in> A \<and> a < length h \<and>
          (case h ! a of
             Leaf ys \<Rightarrow> False
           | Inner cs \<Rightarrow>
               length cs = 32 \<and> 32 dvd length xs \<and> length xs \<le> 32 ^ (d + 2) \<and>
               (\<forall>k<32. if k * 32 ^ (d + 1) < length xs
                        then rep A h d (cs ! k) (take (32 ^ (d + 1)) (drop (k * 32 ^ (d + 1)) xs))
                        else cs ! k = None)))"

text \<open>\<open>vektor_inv h v xs\<close>: the vector \<open>v\<close> holds the elements \<open>xs\<close> in the store \<open>h\<close>: its
  main tree holds the elements below the tail offset, its tail the others, and the shift
  is five times the depth of the main tree.\<close>

definition vektor_inv :: "'a heap \<Rightarrow> vektor \<Rightarrow> 'a list \<Rightarrow> bool" where
  "vektor_inv h v xs \<longleftrightarrow>
     unat (size_' v) = length xs \<and>
     (\<exists>d. unat (shift_' v) = 5 * d \<and> 1 \<le> d \<and> d \<le> 7 \<and>
          rep {..<length h} h d (root_' v) (take (toff (length xs)) xs) \<and>
          toff (length xs) \<le> 32 ^ (d + 1) \<and>
          (1 < d \<longrightarrow> 32 ^ d < toff (length xs))) \<and>
     (\<exists>a ys. tail_' v = Some a \<and> a < length h \<and> h ! a = Leaf ys \<and> length ys = 32 \<and>
          take (length xs - toff (length xs)) ys = drop (toff (length xs)) xs)"

text \<open>\<open>cursor_at h v n i it\<close>: the cursor \<open>it\<close> over the vector \<open>v\<close> of \<open>n\<close> elements is at
  index \<open>i\<close>, its base is the start of the block of \<open>i\<close>, and its position is in the leaf of
  \<open>i\<close> (of \<open>n - 1\<close> at the end position), at the offset of \<open>i\<close> in its block.\<close>

definition cursor_at :: "'a heap \<Rightarrow> vektor \<Rightarrow> nat \<Rightarrow> nat \<Rightarrow> iterator \<Rightarrow> bool" where
  "cursor_at h v n i it \<longleftrightarrow>
     v_' it = v \<and> i_' it = of_nat i \<and> base_' it = of_nat (i - i mod 32) \<and>
     snd (curr_' it) = int (i mod 32) \<and>
     array_for_' h v (of_nat (if i < n then i else n - 1)) = Inr (fst (curr_' it))"

section \<open>Arithmetic of indices\<close>

lemma mask64: "of_nat branching_mask = (31 :: size_t)"
  by (simp add: branching_mask_def branching_def branching_log_def)

lemma log32: "of_nat branching_log = (5 :: unsigned)"
  by (simp add: branching_log_def)

lemma unat_and_31: "unat ((w :: size_t) AND 31) = unat w mod 32"
proof -
  have "w AND 31 = take_bit 5 w"
    by (simp add: take_bit_eq_mask mask_eq_exp_minus_1)
  then show ?thesis
    by (simp add: take_bit_eq_mod unat_mod)
qed

lemma unat_slot:
  "unat (drop_bit k (w :: size_t) AND of_nat branching_mask) = (unat w div 2 ^ k) mod 32"
proof -
  have "unat (drop_bit k w) = unat w div 2 ^ k"
    by (simp only: unat_drop_bit_eq drop_bit_nat_def)
  then show ?thesis
    by (simp only: mask64 unat_and_31)
qed

lemma unat_tail_offset: "unat (tail_offset_' v) = toff (unat (size_' v))"
proof (cases "size_' v < 32")
  case True
  then show ?thesis
    by (simp add: tail_offset_'_def toff_def word_less_nat_alt)
next
  case False
  then have ge: "32 \<le> unat (size_' v)"
    by (simp add: word_less_nat_alt)
  then have nz: "size_' v \<noteq> 0"
    by auto
  have m1: "unat (size_' v - 1) = unat (size_' v) - 1"
    using nz by (simp add: unat_minus_one)
  have lt: "unat (size_' v) < 2 ^ 64"
    using unsigned_less [of "size_' v", where 'a = nat] by simp
  have "(unat (size_' v) - 1) div 32 * 32 \<le> unat (size_' v) - 1"
    by simp
  with lt have small: "(unat (size_' v) - 1) div 32 * 32 < 2 ^ 64"
    by linarith
  have d: "unat (drop_bit 5 (size_' v - 1)) = (unat (size_' v) - 1) div 32"
    by (simp add: drop_bit_eq_div unat_div m1)
  have "unat (drop_bit 5 (size_' v - 1) * 32) = unat (drop_bit 5 (size_' v - 1)) * unat (32 :: size_t)"
    using small d by (subst unat_mult_lem [THEN iffD1]) simp_all
  then have "unat (push_bit 5 (drop_bit 5 (size_' v - 1))) = (unat (size_' v) - 1) div 32 * 32"
    using d by (simp add: push_bit_eq_mult)
  with False ge show ?thesis
    by (simp add: tail_offset_'_def toff_def branching_log_def)
qed

lemma rep_0_iff:
  "rep A h 0 p xs \<longleftrightarrow>
     (\<exists>a. p = Some a \<and> a \<in> A \<and> a < length h \<and> h ! a = Leaf xs \<and> length xs = 32)"
  by (cases p) auto

lemma rep_0_Some: "rep A h 0 (Some a) xs \<longleftrightarrow> a \<in> A \<and> a < length h \<and> h ! a = Leaf xs \<and> length xs = 32"
  by simp

lemma rep_Suc_iff:
  "rep A h (Suc d) p xs \<longleftrightarrow>
     (\<exists>a cs. p = Some a \<and> a \<in> A \<and> a < length h \<and> h ! a = Inner cs \<and> length cs = 32 \<and>
        32 dvd length xs \<and> length xs \<le> 32 ^ (d + 2) \<and>
        (\<forall>k<32. if k * 32 ^ (d + 1) < length xs
                 then rep A h d (cs ! k) (take (32 ^ (d + 1)) (drop (k * 32 ^ (d + 1)) xs))
                 else cs ! k = None))"
  by (cases p) (auto split: vektor_node.splits)

declare rep.simps [simp del]

lemma rep_frame:
  "rep A h d p xs \<Longrightarrow> (\<And>b. b \<in> A \<Longrightarrow> b < length h \<Longrightarrow> b < length h' \<and> h' ! b = h ! b)
     \<Longrightarrow> rep A h' d p xs"
proof (induction d arbitrary: p xs)
  case 0
  then show ?case
    by (auto simp: rep_0_iff)
next
  case (Suc d)
  from Suc.prems(1) obtain a cs where a: "p = Some a" "a \<in> A" "a < length h" "h ! a = Inner cs"
    "length cs = 32" "32 dvd length xs" "length xs \<le> 32 ^ (d + 2)"
    and ch: "\<forall>k<32. if k * 32 ^ (d + 1) < length xs
                 then rep A h d (cs ! k) (take (32 ^ (d + 1)) (drop (k * 32 ^ (d + 1)) xs))
                 else cs ! k = None"
    unfolding rep_Suc_iff by blast
  have a': "a < length h'" "h' ! a = Inner cs"
    using Suc.prems(2) [OF a(2) a(3)] a(4) by simp_all
  have "\<forall>k<32. if k * 32 ^ (d + 1) < length xs
                 then rep A h' d (cs ! k) (take (32 ^ (d + 1)) (drop (k * 32 ^ (d + 1)) xs))
                 else cs ! k = None"
    using ch Suc.IH Suc.prems(2) by (metis (full_types))
  with a a' show ?case
    unfolding rep_Suc_iff by blast
qed

lemma rep_mono: "rep A h d p xs \<Longrightarrow> A \<subseteq> B \<Longrightarrow> rep B h d p xs"
proof (induction d arbitrary: p xs)
  case 0
  then show ?case
    by (auto simp: rep_0_iff)
next
  case (Suc d)
  from Suc.prems(1) obtain a cs where a: "p = Some a" "a \<in> A" "a < length h" "h ! a = Inner cs"
    "length cs = 32" "32 dvd length xs" "length xs \<le> 32 ^ (d + 2)"
    and ch: "\<forall>k<32. if k * 32 ^ (d + 1) < length xs
                 then rep A h d (cs ! k) (take (32 ^ (d + 1)) (drop (k * 32 ^ (d + 1)) xs))
                 else cs ! k = None"
    unfolding rep_Suc_iff by blast
  have "\<forall>k<32. if k * 32 ^ (d + 1) < length xs
                 then rep B h d (cs ! k) (take (32 ^ (d + 1)) (drop (k * 32 ^ (d + 1)) xs))
                 else cs ! k = None"
    using ch Suc.IH Suc.prems(2) by (metis (full_types))
  moreover have "a \<in> B"
    using a(2) Suc.prems(2) by blast
  ultimately show ?case
    using a unfolding rep_Suc_iff by blast
qed

lemma rep_append: "rep A h d p xs \<Longrightarrow> rep A (h @ zs) d p xs"
  by (erule rep_frame) (simp add: nth_append)

lemma rep_length: "rep A h d p xs \<Longrightarrow> 32 dvd length xs \<and> length xs \<le> 32 ^ (d + 1)"
  by (cases d) (auto simp: rep_0_iff rep_Suc_iff)

declare descend.simps [simp del]

lemma pow2_5: "(2 :: nat) ^ (5 * d) = 32 ^ d"
  by (simp add: power_mult)

lemma inner_rep:
  "h ! a = Inner cs \<Longrightarrow> a < length h \<Longrightarrow> inner h (Some a) = Inr cs"
  by (simp add: inner_def)

lemma slot_split:
  fixes i c :: nat
  shows "i mod (c * 32) = (i div c mod 32) * c + i mod c"
  by (simp add: mod_mult2_eq mult.commute)

lemma descend_rep:
  "rep A h d p xs \<Longrightarrow> unat level = 5 * d \<Longrightarrow> d \<le> 12 \<Longrightarrow>
   unat index mod 32 ^ (d + 1) < length xs \<Longrightarrow>
   \<exists>a ys. descend h level index p = Inr (Some a) \<and> a < length h \<and> a \<in> A \<and>
          h ! a = Leaf ys \<and> length ys = 32 \<and>
          ys ! (unat index mod 32) = xs ! (unat index mod 32 ^ (d + 1))"
proof (induction d arbitrary: p xs level)
  case 0
  then have "level = 0"
    by (simp add: unat_eq_zero)
  with 0 show ?case
    by (auto simp: rep_0_iff descend.simps)
next
  case (Suc d)
  let ?i = "unat index"
  let ?c = "32 ^ (d + 1) :: nat"
  from Suc.prems(1) obtain a cs where a: "p = Some a" "a \<in> A" "a < length h" "h ! a = Inner cs"
    "length cs = 32" "32 dvd length xs" "length xs \<le> 32 ^ (d + 2)"
    and ch: "\<forall>k<32. if k * ?c < length xs
                 then rep A h d (cs ! k) (take ?c (drop (k * ?c) xs))
                 else cs ! k = None"
    unfolding rep_Suc_iff by blast
  have lv: "unat level = 5 * d + 5"
    using Suc.prems(2) by simp
  then have nz: "level \<noteq> 0"
    by auto
  have lt64: "\<not> 64 \<le> level"
    using lv Suc.prems(3) by (simp add: word_le_nat_alt)
  have lv': "unat (level - of_nat branching_log) = 5 * d"
    using lv by (simp add: log32 unat_sub word_le_nat_alt)
  define k where "k = ?i div ?c mod 32"
  have k32: "k < 32"
    by (simp add: k_def)
  have "unat level = 5 * (d + 1)"
    using lv by simp
  then have "(2 :: nat) ^ unat level = ?c"
    by (simp only: pow2_5)
  then have slot: "unat (drop_bit (unat level) index AND of_nat branching_mask) = k"
    by (simp only: unat_slot k_def)
  have split: "?i mod 32 ^ (d + 2) = k * ?c + ?i mod ?c"
    using slot_split [of ?i ?c] by (simp add: k_def mult.commute)
  have m: "k * ?c + ?i mod ?c < length xs"
    using Suc.prems(4) split by simp
  then have "k * ?c < length xs"
    by linarith
  with ch k32 have child: "rep A h d (cs ! k) (take ?c (drop (k * ?c) xs))"
    by metis
  have inb: "?i mod 32 ^ (d + 1) < length (take ?c (drop (k * ?c) xs))"
    using m by simp
  from Suc.IH [OF child lv' _ inb] Suc.prems(3)
  obtain b ys where b: "descend h (level - of_nat branching_log) index (cs ! k) = Inr (Some b)"
    "b < length h" "b \<in> A" "h ! b = Leaf ys" "length ys = 32"
    "ys ! (?i mod 32) = take ?c (drop (k * ?c) xs) ! (?i mod 32 ^ (d + 1))"
    by auto
  have "take ?c (drop (k * ?c) xs) ! (?i mod ?c) = xs ! (k * ?c + ?i mod ?c)"
    using m by simp
  with b(6) split have val: "ys ! (?i mod 32) = xs ! (?i mod 32 ^ (Suc d + 1))"
    by simp
  have "descend h level index p = Inr (Some b)"
    using nz lt64 a b(1) slot
    by (subst descend.simps) (simp add: inner_rep)
  with b val show ?case
    by blast
qed

declare make_path_'.simps [simp del]
declare push_tail_'.simps [simp del]

lemma pow32_ge: "(32 :: nat) \<le> 32 ^ (d + 1)"
  by (induction d) simp_all

lemma pow32_dvd: "(32 :: nat) dvd 32 ^ (d + 1)"
  by simp

lemma make_path_rep:
  "rep A h 0 node ys \<Longrightarrow> unat level = 5 * d \<Longrightarrow> make_path_' h level node = (p, h') \<Longrightarrow>
   (\<exists>zs. h' = h @ zs \<and> length zs = d) \<and> rep (A \<union> {length h ..< length h + d}) h' d p ys"
proof (induction d arbitrary: level p h')
  case 0
  then have "level = 0"
    by (simp add: unat_eq_zero)
  with 0 show ?case
    by (auto simp: make_path_'.simps)
next
  case (Suc d)
  have lv: "unat level = 5 * d + 5"
    using Suc.prems(2) by simp
  then have nz: "level \<noteq> 0"
    by auto
  have lv': "unat (level - of_nat branching_log) = 5 * d"
    using lv by (simp add: log32 unat_sub word_le_nat_alt)
  obtain p1 h1 where rec: "make_path_' h (level - of_nat branching_log) node = (p1, h1)"
    by (cases "make_path_' h (level - of_nat branching_log) node")
  from Suc.IH [OF Suc.prems(1) lv' rec]
  obtain zs where h1: "h1 = h @ zs" "length zs = d"
    and r1: "rep (A \<union> {length h ..< length h + d}) h1 d p1 ys"
    by blast
  have res: "p = Some (length h1)" "h' = h1 @ [inner_t [p1]]"
    using Suc.prems(3) nz rec
    by (subst (asm) make_path_'.simps, simp add: make_node_'_def)+
  let ?B = "A \<union> {length h ..< length h + Suc d}"
  let ?cs = "p1 # replicate 31 None"
  have node: "h' ! length h1 = Inner ?cs"
    by (simp add: res inner_t_def branching_def branching_log_def)
  have ly: "length ys = 32"
    using Suc.prems(1) by (auto simp: rep_0_iff)
  have sub: "A \<union> {length h ..< length h + d} \<subseteq> ?B"
    by auto
  have r2: "rep ?B h' d p1 ys"
    using rep_mono [OF rep_append [OF r1, of "[inner_t [p1]]"] sub] res by simp
  have ch: "\<forall>k<32. if k * 32 ^ (d + 1) < length ys
              then rep ?B h' d (?cs ! k) (take (32 ^ (d + 1)) (drop (k * 32 ^ (d + 1)) ys))
              else ?cs ! k = None"
  proof (intro allI impI)
    fix k :: nat
    assume k: "k < 32"
    show "if k * 32 ^ (d + 1) < length ys
              then rep ?B h' d (?cs ! k) (take (32 ^ (d + 1)) (drop (k * 32 ^ (d + 1)) ys))
              else ?cs ! k = None"
    proof (cases k)
      case 0
      then show ?thesis
        using r2 ly pow32_ge [of d] by simp
    next
      case (Suc j)
      have "32 * 1 \<le> (32 :: nat) ^ (d + 1) * k"
        using Suc pow32_ge [of d] by (intro mult_le_mono) simp_all
      then have "\<not> k * 32 ^ (d + 1) < length ys"
        using ly by (simp add: mult.commute)
      moreover have "?cs ! k = None"
        using Suc k by simp
      ultimately show ?thesis
        by simp
    qed
  qed
  have "rep ?B h' (Suc d) (Some (length h1)) ys"
    unfolding rep_Suc_iff
    using node ch ly h1 res by (intro exI [of _ "length h1"] exI [of _ ?cs]) auto
  moreover have "\<exists>zs. h' = h @ zs \<and> length zs = Suc d"
    using h1 res by simp
  ultimately show ?case
    using res by simp
qed

lemma mult32_gap:
  fixes a b :: nat
  shows "32 dvd a \<Longrightarrow> 32 dvd b \<Longrightarrow> a < b \<Longrightarrow> a + 32 \<le> b"
  by (auto elim!: dvdE)

lemma chunk_room:
  fixes n c :: nat
  assumes "32 dvd n" "32 dvd c" "0 < c"
  shows "n mod c + 32 \<le> c"
proof -
  have "32 dvd n mod c"
    using assms by (simp add: dvd_mod)
  moreover have "n mod c < c"
    using assms by simp
  ultimately show ?thesis
    using assms(2) mult32_gap [of "n mod c" c] by blast
qed

lemma chunk_div:
  fixes n c :: nat
  assumes "32 dvd n" "32 dvd c" "0 < c"
  shows "(n + 31) div c = n div c" and "(n + 31) mod c = n mod c + 31"
proof -
  have r: "n mod c + 31 < c"
    using chunk_room [OF assms] by simp
  have e: "n + 31 = n div c * c + (n mod c + 31)"
    by simp
  show "(n + 31) div c = n div c"
    using r by (subst e) (simp only: div_mult_self3 div_less add_0_right)
  show "(n + 31) mod c = n mod c + 31"
    using r by (subst e) (simp only: mod_mult_self3 mod_less)
qed

lemma rep_update_slot:
  assumes old: "rep A h (Suc d) (Some pa) xs" and node: "h ! pa = Inner cs"
    and len: "length xs + 32 \<le> 32 ^ (d + 2)"
    and ly: "length ys = 32"
    and h': "length h < length h'"
            "h' ! length h = Inner (cs[length xs div 32 ^ (d + 1) := nxt])"
    and frame: "\<And>b. b < length h \<Longrightarrow> h' ! b = h ! b"
    and AB: "A \<subseteq> B" "length h \<in> B"
    and new: "rep B h' d nxt (drop (length xs div 32 ^ (d + 1) * 32 ^ (d + 1)) xs @ ys)"
  shows "rep B h' (Suc d) (Some (length h)) (xs @ ys)"
proof -
  define c :: nat where "c = 32 ^ (d + 1)"
  let ?n = "length xs"
  define idx where "idx = ?n div c"
  have c32: "32 * c = 32 ^ (d + 2)"
    by (simp add: c_def)
  have cpos: "0 < c"
    by (simp add: c_def)
  have cdvd: "32 dvd c"
    by (simp add: c_def)
  from old node have o: "pa < length h" "length cs = 32" "32 dvd ?n"
    and ch: "\<forall>k<32. if k * c < ?n
                 then rep A h d (cs ! k) (take c (drop (k * c) xs))
                 else cs ! k = None"
    unfolding rep_Suc_iff c_def by auto
  have new': "rep B h' d nxt (drop (idx * c) xs @ ys)"
    using new by (simp only: idx_def c_def)
  have h'2: "h' ! length h = Inner (cs[idx := nxt])"
    using h'(2) by (simp only: idx_def c_def)
  have room: "?n mod c + 32 \<le> c"
    using o(3) cdvd cpos by (rule chunk_room)
  have nsplit: "?n = idx * c + ?n mod c"
    unfolding idx_def by (rule div_mult_mod_eq [symmetric])
  have idx32: "idx < 32"
  proof -
    have "?n < 32 * c"
      using len c32 by simp
    then show ?thesis
      unfolding idx_def by (rule less_mult_imp_div_less)
  qed
  have kids: "\<forall>k<32. if k * c < length (xs @ ys)
                 then rep B h' d (cs[idx := nxt] ! k) (take c (drop (k * c) (xs @ ys)))
                 else cs[idx := nxt] ! k = None"
  proof (intro allI impI)
    fix k :: nat
    assume k: "k < 32"
    consider (lt) "k < idx" | (eq) "k = idx" | (gt) "idx < k"
      by linarith
    then show "if k * c < length (xs @ ys)
                 then rep B h' d (cs[idx := nxt] ! k) (take c (drop (k * c) (xs @ ys)))
                 else cs[idx := nxt] ! k = None"
    proof cases
      case lt
      then have "(k + 1) * c \<le> idx * c"
        by (intro mult_le_mono1) simp
      then have le: "k * c + c \<le> ?n"
        using nsplit by (simp add: algebra_simps)
      then have "k * c < ?n"
        using cpos by linarith
      with ch k have "rep A h d (cs ! k) (take c (drop (k * c) xs))"
        by metis
      then have "rep A h' d (cs ! k) (take c (drop (k * c) xs))"
        using frame h'(1) by (elim rep_frame) simp
      then have r: "rep B h' d (cs ! k) (take c (drop (k * c) xs))"
        using AB(1) by (rule rep_mono)
      have t: "take c (drop (k * c) (xs @ ys)) = take c (drop (k * c) xs)"
        using le by simp
      have u: "cs[idx := nxt] ! k = cs ! k"
        using lt by simp
      have v: "k * c < length (xs @ ys)"
        using \<open>k * c < ?n\<close> by simp
      show ?thesis
        using r by (simp only: t u v if_True)
    next
      case eq
      have "drop (idx * c) (xs @ ys) = drop (idx * c) xs @ ys"
        using nsplit by simp
      moreover have "length (drop (idx * c) xs @ ys) \<le> c"
        using room nsplit ly by simp
      ultimately have t: "take c (drop (k * c) (xs @ ys)) = drop (idx * c) xs @ ys"
        using eq by simp
      have u: "cs[idx := nxt] ! k = nxt"
        using eq idx32 o(2) by simp
      have v: "k * c < length (xs @ ys)"
        using eq nsplit ly by simp
      show ?thesis
        using new' by (simp only: t u v if_True)
    next
      case gt
      then have "(idx + 1) * c \<le> k * c"
        by (intro mult_le_mono1) simp
      then have ge: "?n + 32 \<le> k * c"
        using nsplit room by (simp add: algebra_simps)
      then have "\<not> k * c < ?n"
        by simp
      with ch k have "cs ! k = None"
        by metis
      then have u: "cs[idx := nxt] ! k = None"
        using gt by simp
      have v: "\<not> k * c < length (xs @ ys)"
        using ge ly by simp
      show ?thesis
        by (simp only: u v if_False)
    qed
  qed
  have "32 dvd length (xs @ ys)"
    using o(3) ly by simp
  moreover have "length (xs @ ys) \<le> 32 ^ (d + 2)"
    using len ly by simp
  moreover have "length (cs[idx := nxt]) = 32"
    using o(2) by simp
  moreover note kids [unfolded c_def] h'(1) h'2 AB(2)
  ultimately show ?thesis
    unfolding rep_Suc_iff
    by (intro exI [of _ "length h"] exI [of _ "cs[idx := nxt]"]) blast
qed

lemma div_mult_add:
  fixes k c r :: nat
  shows "r < c \<Longrightarrow> (k * c + r) div c = k"
  by simp

lemma mod_mult_add:
  fixes k c r :: nat
  shows "(k * c + r) mod c = r mod c"
  by simp

lemma push_tail_idx:
  assumes lv: "unat level = 5 * Suc d" and dv: "32 dvd n"
    and sz: "unat (size_' v - 1) mod 32 ^ (d + 2) = n + 31"
  shows "unat (drop_bit (unat level) (size_' v - 1) AND of_nat branching_mask)
           = n div 32 ^ (d + 1)"
    and "unat (size_' v - 1) mod 32 ^ (d + 1) = n mod 32 ^ (d + 1) + 31"
proof -
  define c :: nat where "c = 32 ^ (d + 1)"
  define i where "i = unat (size_' v - 1)"
  have cpos: "0 < c" and cdvd: "32 dvd c" and c32: "c * 32 = 32 ^ (d + 2)"
    by (simp_all add: c_def)
  have "(2 :: nat) ^ unat level = c"
    unfolding lv c_def by (simp only: pow2_5 Suc_eq_plus1)
  then have slot: "unat (drop_bit (unat level) (size_' v - 1) AND of_nat branching_mask)
      = i div c mod 32"
    by (simp only: unat_slot i_def)
  have "i mod (c * 32) = (i div c mod 32) * c + i mod c"
    by (rule slot_split)
  then have e: "n + 31 = (i div c mod 32) * c + i mod c"
    using sz by (simp only: c32 i_def)
  have "(n + 31) div c = i div c mod 32"
    by (subst e) (rule div_mult_add [OF mod_less_divisor [OF cpos]])
  moreover have "(n + 31) mod c = i mod c"
    by (subst e) (simp only: mod_mult_add mod_mod_trivial)
  ultimately show "unat (drop_bit (unat level) (size_' v - 1) AND of_nat branching_mask)
           = n div 32 ^ (d + 1)"
    and "unat (size_' v - 1) mod 32 ^ (d + 1) = n mod 32 ^ (d + 1) + 31"
    using chunk_div [OF dv cdvd cpos] slot by (simp_all only: c_def i_def)
qed

lemma push_tail_unfold:
  "inner h parent = Inr cs \<Longrightarrow> \<not> 64 \<le> level \<Longrightarrow>
   unat (drop_bit (unat level) (size_' v - 1) AND of_nat branching_mask) = idx \<Longrightarrow>
   push_tail_' h v level parent tail =
     (case (if level = of_nat branching_log then Inr (tail, h @ [Inner cs])
            else
              (case cs ! idx of
                 Some c \<Rightarrow>
                   push_tail_' (h @ [Inner cs]) v (level - of_nat branching_log) (Some c) tail
               | None \<Rightarrow>
                   Inr (make_path_' (h @ [Inner cs]) (level - of_nat branching_log) tail))) of
        Inl e \<Rightarrow> Inl e
      | Inr (next_node, h2) \<Rightarrow> Inr (Some (length h), set_slot h2 (length h) idx next_node))"
  by (subst push_tail_'.simps) (simp add: make_node_'_def Let_def)

lemma set_slot_fresh:
  "set_slot (h @ Inner cs # zs) (length h) idx p = h @ Inner (cs[idx := p]) # zs"
  by (simp add: set_slot_def list_update_append)

lemma nth_append_Cons_other:
  "b \<noteq> length h \<Longrightarrow> (h @ x # zs) ! b = (h @ y # zs) ! b"
  by (simp add: nth_append nth_Cons')

lemma push_tail_rep:
  assumes "rep A h (Suc d) parent xs" "rep A h 0 tail ys" "A \<subseteq> {..<length h}"
    "unat level = 5 * Suc d" "Suc d \<le> 12" "length xs + 32 \<le> 32 ^ (d + 2)"
    "unat (size_' v - 1) mod 32 ^ (d + 2) = length xs + 31"
  shows "\<exists>cs' zs. push_tail_' h v level parent tail = Inr (Some (length h), h @ Inner cs' # zs) \<and>
      length zs = d \<and>
      rep (A \<union> {length h ..< length h + Suc d}) (h @ Inner cs' # zs) (Suc d)
        (Some (length h)) (xs @ ys) \<and>
      (\<exists>pa cs nxt. parent = Some pa \<and> h ! pa = Inner cs \<and>
         cs' = cs[length xs div 32 ^ (d + 1) := nxt])"
  using assms
proof (induction d arbitrary: h parent xs level)
  case 0
  let ?B = "A \<union> {length h ..< length h + Suc 0}"
  from "0.prems"(1) obtain pa cs where pa: "parent = Some pa" "pa \<in> A" "pa < length h"
    "h ! pa = Inner cs" "length cs = 32" "32 dvd length xs"
    unfolding rep_Suc_iff by blast
  have old: "rep A h (Suc 0) (Some pa) xs"
    using "0.prems"(1) pa(1) by simp
  have ly: "length ys = 32"
    using "0.prems"(2) by (auto simp: rep_0_iff)
  have inn: "inner h parent = Inr cs"
    using pa by (simp add: inner_rep)
  have lt64: "\<not> 64 \<le> level"
    using "0.prems"(4) by (simp add: word_le_nat_alt)
  define idx where "idx = length xs div 32 ^ (0 + 1)"
  have slot: "unat (drop_bit (unat level) (size_' v - 1) AND of_nat branching_mask) = idx"
    unfolding idx_def by (rule push_tail_idx(1) [OF "0.prems"(4) pa(6) "0.prems"(7)])
  have "level = of_nat (unat level)"
    by simp
  then have l5: "level = of_nat branching_log"
    using "0.prems"(4) by (simp add: branching_log_def)
  define h' where "h' = h @ Inner (cs[idx := tail]) # []"
  have res: "push_tail_' h v level parent tail = Inr (Some (length h), h')"
    using set_slot_fresh [of h cs "[]" idx tail]
    by (subst push_tail_unfold [OF inn lt64 slot]) (simp add: l5 h'_def)
  have "idx * 32 ^ (0 + 1) = length xs"
    using pa(6) by (simp add: idx_def)
  then have dr: "drop (idx * 32 ^ (0 + 1)) xs @ ys = ys"
    by simp
  have "rep A h' 0 tail ys"
    using "0.prems"(2) unfolding h'_def by (rule rep_append)
  then have "rep ?B h' 0 tail ys"
    by (rule rep_mono) auto
  then have new: "rep ?B h' 0 tail (drop (length xs div 32 ^ (0 + 1) * 32 ^ (0 + 1)) xs @ ys)"
    using dr by (simp only: idx_def)
  have "rep ?B h' (Suc 0) (Some (length h)) (xs @ ys)"
  proof (rule rep_update_slot [OF old pa(4) "0.prems"(6) ly _ _ _ _ _ new])
    show "length h < length h'"
      by (simp add: h'_def)
    show "h' ! length h = Inner (cs[length xs div 32 ^ (0 + 1) := tail])"
      by (simp add: h'_def idx_def)
    show "\<And>b. b < length h \<Longrightarrow> h' ! b = h ! b"
      by (simp add: h'_def nth_append)
    show "A \<subseteq> ?B"
      by auto
    show "length h \<in> ?B"
      by auto
  qed
  with res pa show ?case
    unfolding h'_def idx_def by auto
next
  case (Suc d)
  define c :: nat where "c = 32 ^ (Suc d + 1)"
  have cpos: "0 < c" and cdvd: "32 dvd c"
    by (simp_all add: c_def)
  let ?B = "A \<union> {length h ..< length h + Suc (Suc d)}"
  let ?n = "length xs"
  from Suc.prems(1) obtain pa cs where pa: "parent = Some pa" "pa \<in> A" "pa < length h"
    "h ! pa = Inner cs" "length cs = 32" "32 dvd ?n"
    and kids: "\<forall>k<32. if k * c < ?n
                 then rep A h (Suc d) (cs ! k) (take c (drop (k * c) xs))
                 else cs ! k = None"
    unfolding rep_Suc_iff [of _ _ "Suc d"] c_def by blast
  have old: "rep A h (Suc (Suc d)) (Some pa) xs"
    using Suc.prems(1) pa(1) by simp
  have ly: "length ys = 32"
    using Suc.prems(2) by (auto simp: rep_0_iff)
  have inn: "inner h parent = Inr cs"
    using pa by (simp add: inner_rep)
  have lt64: "\<not> 64 \<le> level"
    using Suc.prems(4,5) by (simp add: word_le_nat_alt)
  define idx where "idx = ?n div c"
  have slot: "unat (drop_bit (unat level) (size_' v - 1) AND of_nat branching_mask) = idx"
    unfolding idx_def c_def by (rule push_tail_idx(1) [OF Suc.prems(4) pa(6) Suc.prems(7)])
  have szm: "unat (size_' v - 1) mod c = ?n mod c + 31"
    unfolding c_def by (rule push_tail_idx(2) [OF Suc.prems(4) pa(6) Suc.prems(7)])
  have idx32: "idx < 32"
  proof -
    have "?n < 32 * c"
      using Suc.prems(6) by (simp add: c_def)
    then show ?thesis
      unfolding idx_def by (rule less_mult_imp_div_less)
  qed
  have nsplit: "?n = idx * c + ?n mod c"
    unfolding idx_def by (rule div_mult_mod_eq [symmetric])
  have room: "?n mod c + 32 \<le> c"
    using pa(6) cdvd cpos by (rule chunk_room)
  have lv: "unat level = 5 * Suc d + 5"
    using Suc.prems(4) by simp
  have l5: "level \<noteq> of_nat branching_log"
    using lv by (auto simp: branching_log_def)
  have lv': "unat (level - of_nat branching_log) = 5 * Suc d"
    using lv by (simp add: log32 unat_sub word_le_nat_alt)
  define h1 where "h1 = h @ [Inner cs]"
  let ?B1 = "A \<union> {length h1 ..< length h1 + Suc d}"
  have tail1: "rep A h1 0 tail ys"
    using Suc.prems(2) unfolding h1_def by (rule rep_append)
  have step: "\<exists>nxt zs.
      (case cs ! idx of
         Some c \<Rightarrow> push_tail_' h1 v (level - of_nat branching_log) (Some c) tail
       | None \<Rightarrow> Inr (make_path_' h1 (level - of_nat branching_log) tail))
        = Inr (nxt, h1 @ zs) \<and>
      length zs = Suc d \<and> rep ?B1 (h1 @ zs) (Suc d) nxt (drop (idx * c) xs @ ys)"
  proof (cases "idx * c < ?n")
    case True
    with kids idx32 have ch: "rep A h (Suc d) (cs ! idx) (take c (drop (idx * c) xs))"
      by metis
    have "length (drop (idx * c) xs) \<le> c"
      using nsplit room by simp
    then have tk: "take c (drop (idx * c) xs) = drop (idx * c) xs"
      by simp
    have len': "length (drop (idx * c) xs) = ?n mod c"
      using nsplit by simp
    from ch obtain ca where ca: "cs ! idx = Some ca"
      unfolding rep_Suc_iff by blast
    have ch1: "rep A h1 (Suc d) (Some ca) (drop (idx * c) xs)"
      using ch unfolding h1_def tk ca by (rule rep_append)
    have A1: "A \<subseteq> {..<length h1}"
      using Suc.prems(3) by (auto simp: h1_def)
    have d12: "Suc d \<le> 12"
      using Suc.prems(5) by simp
    have r1: "length (drop (idx * c) xs) + 32 \<le> 32 ^ (d + 2)"
      using room len' by (simp add: c_def)
    have s1: "unat (size_' v - 1) mod 32 ^ (d + 2) = length (drop (idx * c) xs) + 31"
      using szm len' by (simp add: c_def)
    from Suc.IH [OF ch1 tail1 A1 lv' d12 r1 s1]
    obtain cs1 zs1 where
      "push_tail_' h1 v (level - of_nat branching_log) (Some ca) tail
         = Inr (Some (length h1), h1 @ Inner cs1 # zs1)"
      "length zs1 = d"
      "rep ?B1 (h1 @ Inner cs1 # zs1) (Suc d) (Some (length h1)) (drop (idx * c) xs @ ys)"
      by blast
    then show ?thesis
      using ca by (intro exI [of _ "Some (length h1)"] exI [of _ "Inner cs1 # zs1"]) simp
  next
    case False
    with kids idx32 have none: "cs ! idx = None"
      by metis
    have "idx * c = ?n"
      using False nsplit by (metis le_add1 le_neq_implies_less)
    then have dr: "drop (idx * c) xs @ ys = ys"
      by simp
    obtain p h2 where mp: "make_path_' h1 (level - of_nat branching_log) tail = (p, h2)"
      by (cases "make_path_' h1 (level - of_nat branching_log) tail")
    from make_path_rep [OF tail1 lv' mp]
    obtain zs where "h2 = h1 @ zs" "length zs = Suc d" "rep ?B1 h2 (Suc d) p ys"
      by blast
    then show ?thesis
      using none mp dr by (intro exI [of _ p] exI [of _ zs]) simp
  qed
  then obtain nxt zs where nx:
    "(case cs ! idx of
         Some c \<Rightarrow> push_tail_' h1 v (level - of_nat branching_log) (Some c) tail
       | None \<Rightarrow> Inr (make_path_' h1 (level - of_nat branching_log) tail))
        = Inr (nxt, h1 @ zs)"
    "length zs = Suc d"
    and rnx: "rep ?B1 (h1 @ zs) (Suc d) nxt (drop (idx * c) xs @ ys)"
    by blast
  define h' where "h' = h @ Inner (cs[idx := nxt]) # zs"
  have h1zs: "h1 @ zs = h @ Inner cs # zs"
    by (simp add: h1_def)
  have unf: "push_tail_' h v level parent tail =
      (case (case cs ! idx of
         Some c \<Rightarrow> push_tail_' h1 v (level - of_nat branching_log) (Some c) tail
       | None \<Rightarrow> Inr (make_path_' h1 (level - of_nat branching_log) tail)) of
        Inl e \<Rightarrow> Inl e
      | Inr (next_node, h2) \<Rightarrow> Inr (Some (length h), set_slot h2 (length h) idx next_node))"
    unfolding h1_def using l5 by (subst push_tail_unfold [OF inn lt64 slot]) simp
  have res: "push_tail_' h v level parent tail = Inr (Some (length h), h')"
    by (simp only: unf nx(1) sum.case prod.case h1zs set_slot_fresh h'_def)
  have notin: "length h \<notin> ?B1"
    using Suc.prems(3) by (auto simp: h1_def)
  have "rep ?B1 h' (Suc d) nxt (drop (idx * c) xs @ ys)"
  proof (rule rep_frame [OF rnx])
    fix b
    assume b: "b \<in> ?B1" "b < length (h1 @ zs)"
    then have "b \<noteq> length h"
      using notin by blast
    then have "h' ! b = (h1 @ zs) ! b"
      unfolding h'_def h1zs by (rule nth_append_Cons_other)
    moreover have "b < length h'"
      using b(2) by (simp add: h'_def h1_def)
    ultimately show "b < length h' \<and> h' ! b = (h1 @ zs) ! b"
      by simp
  qed
  then have "rep ?B h' (Suc d) nxt (drop (idx * c) xs @ ys)"
    by (rule rep_mono) (auto simp: h1_def)
  then have new: "rep ?B h' (Suc d) nxt
      (drop (?n div 32 ^ (Suc d + 1) * 32 ^ (Suc d + 1)) xs @ ys)"
    by (simp only: idx_def c_def)
  have "rep ?B h' (Suc (Suc d)) (Some (length h)) (xs @ ys)"
  proof (rule rep_update_slot [OF old pa(4) Suc.prems(6) ly _ _ _ _ _ new])
    show "length h < length h'"
      by (simp add: h'_def)
    show "h' ! length h = Inner (cs[?n div 32 ^ (Suc d + 1) := nxt])"
      by (simp add: h'_def idx_def c_def)
    show "\<And>b. b < length h \<Longrightarrow> h' ! b = h ! b"
      by (simp add: h'_def nth_append)
    show "A \<subseteq> ?B"
      by auto
    show "length h \<in> ?B"
      by auto
  qed
  with res pa nx(2) show ?case
    unfolding h'_def idx_def c_def by auto
qed

lemma toff_le: "toff n \<le> n"
proof (cases "n < 32")
  case True
  then show ?thesis
    by (simp add: toff_def)
next
  case False
  have "(n - 1) div 32 * 32 \<le> n - 1"
    by (rule div_times_less_eq_dividend)
  then have "(n - 1) div 32 * 32 \<le> n"
    by linarith
  with False show ?thesis
    by (simp only: toff_def if_False)
qed

lemma toff_dvd: "32 dvd toff n"
  by (simp add: toff_def)

lemma toff_tail: "n - toff n \<le> 32"
proof (cases "n < 32")
  case True
  then show ?thesis
    by (simp add: toff_def)
next
  case False
  have "n - 1 = (n - 1) div 32 * 32 + (n - 1) mod 32"
    by simp
  moreover have "(n - 1) mod 32 < 32"
    by simp
  ultimately have "n - 1 - (n - 1) div 32 * 32 < 32"
    by linarith
  with False show ?thesis
    by (simp add: toff_def)
qed

lemma toff_Suc_room: "n - toff n < 32 \<Longrightarrow> toff (Suc n) = toff n"
proof -
  assume a: "n - toff n < 32"
  show ?thesis
  proof (cases "n < 32")
    case True
    then show ?thesis
      by (simp add: toff_def)
  next
    case False
    then have t: "toff n = (n - 1) div 32 * 32"
      by (simp add: toff_def)
    have s: "n - 1 = (n - 1) div 32 * 32 + (n - 1) mod 32"
      by simp
    have "(n - 1) mod 32 < 31"
      using a t s False by linarith
    then have "n = (n - 1) div 32 * 32 + ((n - 1) mod 32 + 1)" "(n - 1) mod 32 + 1 < 32"
      using s False by linarith+
    then have "n div 32 = (n - 1) div 32"
      using div_mult_add [of "(n - 1) mod 32 + 1" 32 "(n - 1) div 32"] by simp
    with False t show ?thesis
      by (simp add: toff_def)
  qed
qed

lemma toff_full: "n - toff n = 32 \<Longrightarrow> toff (Suc n) = n \<and> 32 dvd n \<and> 32 \<le> n"
proof -
  assume a: "n - toff n = 32"
  then have ge: "32 \<le> n"
    by linarith
  then have t: "toff n = (n - 1) div 32 * 32"
    by (simp add: toff_def)
  have "n = (n - 1) div 32 * 32 + 32"
    using a t by linarith
  then have "n = ((n - 1) div 32 + 1) * 32"
    by simp
  then have dv: "32 dvd n"
    using dvd_triv_right [of 32 "(n - 1) div 32 + 1"] by simp
  then have "n div 32 * 32 = n"
    by simp
  with ge dv show ?thesis
    by (simp add: toff_def)
qed

lemma unat_size_bound:
  assumes "vektor_inv h v xs"
  shows "length xs \<le> 2 ^ 40 + 32"
proof -
  from assms obtain d where d: "d \<le> 7" "toff (length xs) \<le> 32 ^ (d + 1)"
    unfolding vektor_inv_def by blast
  have "(32 :: nat) ^ (d + 1) \<le> 32 ^ 8"
    using d(1) by (intro power_increasing) simp_all
  then have "toff (length xs) \<le> 2 ^ 40"
    using d(2) by simp
  then show ?thesis
    using toff_tail [of "length xs"] by linarith
qed

lemma leaf_ref_Leaf: "a < length h \<Longrightarrow> h ! a = Leaf ys \<Longrightarrow> leaf_ref h (Some a) = Inr a"
  by (simp add: leaf_ref_def leaf_def)

lemma array_for_inv:
  assumes inv: "vektor_inv h v xs" and lt: "index < size_' v"
  shows "\<exists>a ys. array_for_' h v index = Inr a \<and> a < length h \<and> h ! a = Leaf ys \<and>
           length ys = 32 \<and> ys ! (unat index mod 32) = xs ! unat index"
proof -
  let ?n = "length xs"
  let ?t = "toff ?n"
  let ?i = "unat index"
  from inv obtain d a ys where sz: "unat (size_' v) = ?n"
    and d: "unat (shift_' v) = 5 * d" "d \<le> 7"
      "rep {..<length h} h d (root_' v) (take ?t xs)" "?t \<le> 32 ^ (d + 1)"
    and tl: "tail_' v = Some a" "a < length h" "h ! a = Leaf ys" "length ys = 32"
      "take (?n - ?t) ys = drop ?t xs"
    unfolding vektor_inv_def by blast
  have i: "?i < ?n"
    using lt sz by (simp add: word_less_nat_alt)
  show ?thesis
  proof (cases "index \<ge> tail_offset_' v")
    case True
    then have ge: "?t \<le> ?i"
      by (simp add: word_le_nat_alt unat_tail_offset sz)
    have "?i - ?t < 32"
      using i ge toff_tail [of ?n] by linarith
    moreover have "32 dvd ?t"
      by (rule toff_dvd)
    ultimately have m: "?i mod 32 = ?i - ?t"
    proof -
      assume r: "?i - ?t < 32" and "32 dvd ?t"
      then obtain q where q: "?t = q * 32"
        by (auto elim: dvdE)
      have "?i = q * 32 + (?i - ?t)"
        using ge q by simp
      then have "?i mod 32 = (?i - ?t) mod 32"
        by (metis mod_mult_add)
      with r show ?thesis
        by simp
    qed
    have "ys ! (?i - ?t) = take (?n - ?t) ys ! (?i - ?t)"
      using i ge by simp
    also have "\<dots> = xs ! ?i"
      using i ge by (simp add: tl(5))
    finally have "ys ! (?i mod 32) = xs ! ?i"
      using m by simp
    moreover have "array_for_' h v index = Inr a"
      using True lt tl by (simp add: array_for_'_def leaf_ref_Leaf)
    ultimately show ?thesis
      using tl by blast
  next
    case False
    then have lt': "?i < ?t"
      by (simp add: word_le_nat_alt unat_tail_offset sz)
    then have "?i < 32 ^ (d + 1)"
      using d(4) by linarith
    then have md: "?i mod 32 ^ (d + 1) = ?i"
      by simp
    have inb: "?i mod 32 ^ (d + 1) < length (take ?t xs)"
      using lt' toff_le [of ?n] by (simp only: md length_take)
    from descend_rep [OF d(3) d(1) _ inb] d(2)
    obtain b zs where b: "descend h (shift_' v) index (root_' v) = Inr (Some b)" "b < length h"
      "h ! b = Leaf zs" "length zs = 32" "zs ! (?i mod 32) = take ?t xs ! (?i mod 32 ^ (d + 1))"
      by auto
    have "zs ! (?i mod 32) = xs ! ?i"
      using b(5) lt' by (simp only: md) simp
    moreover have "array_for_' h v index = Inr b"
      using False lt b by (simp add: array_for_'_def leaf_ref_Leaf)
    ultimately show ?thesis
      using b by blast
  qed
qed

lemma at_inv:
  assumes inv: "vektor_inv h v xs" and lt: "index < size_' v"
  shows "at_vektor h v index = Inr (xs ! unat index)"
proof -
  from array_for_inv [OF inv lt] obtain a ys where
    "array_for_' h v index = Inr a" "h ! a = Leaf ys" "ys ! (unat index mod 32) = xs ! unat index"
    by blast
  then show ?thesis
    by (simp add: at_vektor_def mask64 unat_and_31)
qed

lemma set_leaf_fresh:
  "set_leaf (h @ [Leaf zs]) (length h) f = h @ [Leaf (f zs)]"
  by (simp add: set_leaf_def)

lemma new_tail_take:
  assumes "length ys = 32" "ts < 32"
  shows "length ((take ts ys @ drop ts (replicate 32 d))[ts := x]) = 32"
    and "take (Suc ts) ((take ts ys @ drop ts (replicate 32 d))[ts := x]) = take ts ys @ [x]"
proof -
  have l: "length (take ts ys) = ts"
    using assms by simp
  show "length ((take ts ys @ drop ts (replicate 32 d))[ts := x]) = 32"
    using assms by simp
  have "32 - ts = Suc (31 - ts)"
    using assms(2) by simp
  then have "replicate (32 - ts) d = d # replicate (31 - ts) d"
    by (simp only: replicate_Suc)
  then have e1: "drop ts (replicate 32 d) = d # replicate (31 - ts) d"
    by (simp only: drop_replicate)
  have e2: "(take ts ys @ d # replicate (31 - ts) d)[ts := x]
      = take ts ys @ x # replicate (31 - ts) d"
    using l by (simp add: list_update_append)
  show "take (Suc ts) ((take ts ys @ drop ts (replicate 32 d))[ts := x]) = take ts ys @ [x]"
    unfolding e1 e2 using l by simp
qed

lemma vektor_invI:
  assumes "unat (size_' v) = n" "n = length xs" "t = toff n"
    "unat (shift_' v) = 5 * d" "1 \<le> d" "d \<le> 7"
    "rep {..<length h} h d (root_' v) (take t xs)" "t \<le> 32 ^ (d + 1)" "1 < d \<longrightarrow> 32 ^ d < t"
    "tail_' v = Some a" "a < length h" "h ! a = Leaf ys" "length ys = 32"
    "take (n - t) ys = drop t xs"
  shows "vektor_inv h v xs"
  unfolding vektor_inv_def
proof (intro conjI)
  show "unat (size_' v) = length xs"
    using assms(1,2) by simp
  show "\<exists>d. unat (shift_' v) = 5 * d \<and> 1 \<le> d \<and> d \<le> 7 \<and>
        rep {..<length h} h d (root_' v) (take (toff (length xs)) xs) \<and>
        toff (length xs) \<le> 32 ^ (d + 1) \<and> (1 < d \<longrightarrow> 32 ^ d < toff (length xs))"
    using assms(2-9) by (intro exI [of _ d]) simp
  show "\<exists>a ys. tail_' v = Some a \<and> a < length h \<and> h ! a = Leaf ys \<and> length ys = 32 \<and>
        take (length xs - toff (length xs)) ys = drop (toff (length xs)) xs"
    using assms(2,3,10-14) by (intro exI [of _ a] exI [of _ ys]) simp
qed

lemma inv_words:
  assumes "vektor_inv h v xs"
  shows "unat (size_' v - tail_offset_' v) = length xs - toff (length xs)"
    and "unat (size_' v + 1) = length xs + 1"
proof -
  have sz: "unat (size_' v) = length xs"
    using assms by (simp add: vektor_inv_def)
  have "tail_offset_' v \<le> size_' v"
    using toff_le [of "length xs"] by (simp add: word_le_nat_alt unat_tail_offset sz)
  then show "unat (size_' v - tail_offset_' v) = length xs - toff (length xs)"
    by (simp add: unat_sub unat_tail_offset sz)
  have "length xs + 1 < 2 ^ 64"
    using unat_size_bound [OF assms] by simp
  then show "unat (size_' v + 1) = length xs + 1"
    using sz by (simp add: unat_add_lem [THEN iffD1])
qed

lemma push_back_room:
  fixes h :: "'a::default heap"
  assumes inv: "vektor_inv h v xs" and room: "length xs - toff (length xs) < 32"
  shows "\<exists>v' n'. push_back h v x = Inr (v', h @ [n']) \<and> vektor_inv (h @ [n']) v' (xs @ [x]) \<and>
           root_' v' = root_' v \<and> shift_' v' = shift_' v \<and> size_' v' = size_' v + 1"
proof -
  let ?n = "length xs"
  let ?t = "toff ?n"
  let ?ts = "?n - ?t"
  from inv obtain d a ys where sz: "unat (size_' v) = ?n"
    and d: "unat (shift_' v) = 5 * d" "1 \<le> d" "d \<le> 7"
      "rep {..<length h} h d (root_' v) (take ?t xs)" "?t \<le> 32 ^ (d + 1)"
      "1 < d \<longrightarrow> 32 ^ d < ?t"
    and tl: "tail_' v = Some a" "a < length h" "h ! a = Leaf ys" "length ys = 32"
      "take ?ts ys = drop ?t xs"
    unfolding vektor_inv_def by blast
  have ts: "unat (size_' v - tail_offset_' v) = ?ts"
    by (rule inv_words(1) [OF inv])
  have lt: "size_' v - tail_offset_' v < of_nat branching"
    using room ts by (simp add: word_less_nat_alt branching_def branching_log_def)
  have lf: "leaf h (tail_' v) = Inr ys"
    using tl by (simp add: leaf_def)
  define ys' where "ys' = (take ?ts ys @ drop ?ts (replicate 32 default))[?ts := x]"
  define v' where "v' = \<lparr>size_' = size_' v + 1, shift_' = shift_' v, root_' = root_' v,
                        tail_' = Some (length h)\<rparr>"
  define h' where "h' = h @ [Leaf ys']"
  have res: "push_back h v x = Inr (v', h')"
    using lt lf ts
    by (simp add: push_back_def Let_def make_node_'_def leaf_t_def set_leaf_fresh
        branching_def branching_log_def v'_def h'_def ys'_def)
  have ly': "length ys' = 32" and tk': "take (Suc ?ts) ys' = take ?ts ys @ [x]"
    unfolding ys'_def using new_tail_take [OF tl(4) room] by simp_all
  have t': "?t = toff (Suc ?n)"
    using toff_Suc_room [OF room] by simp
  have tle: "?t \<le> ?n"
    by (rule toff_le)
  have "rep {..<length h} h' d (root_' v) (take ?t xs)"
    unfolding h'_def using d(4) by (rule rep_append)
  then have "rep {..<length h'} h' d (root_' v) (take ?t xs)"
    by (rule rep_mono) (auto simp: h'_def)
  then have r': "rep {..<length h'} h' d (root_' v') (take ?t (xs @ [x]))"
    using tle by (simp add: v'_def)
  have tail': "take (Suc ?n - ?t) ys' = drop ?t (xs @ [x])"
    using tle tk' tl(5) by (simp add: Suc_diff_le)
  have sz': "unat (size_' v') = Suc ?n"
    using inv_words(2) [OF inv] by (simp add: v'_def)
  have "vektor_inv h' v' (xs @ [x])"
  proof (rule vektor_invI [OF sz' _ t' _ d(2,3) r' d(5,6) _ _ _ ly' tail'])
    show "Suc ?n = length (xs @ [x])"
      by simp
    show "unat (shift_' v') = 5 * d"
      using d(1) by (simp add: v'_def)
    show "tail_' v' = Some (length h)"
      by (simp add: v'_def)
    show "length h < length h'"
      by (simp add: h'_def)
    show "h' ! length h = Leaf ys'"
      by (simp add: h'_def)
  qed
  with res show ?thesis
    unfolding h'_def by (intro exI [of _ v'] exI [of _ "Leaf ys'"]) (simp add: v'_def)
qed

lemma unat_one_shl:
  assumes "unat (s :: unsigned) < 32"
  shows "unat (ucast (push_bit (unat s) (1 :: unsigned)) :: size_t) = 2 ^ unat s"
proof -
  have lt: "(2 :: nat) ^ unat s < 2 ^ 32"
    using assms by (simp only: power_strict_increasing_iff)
  have "unat (push_bit (unat s) (1 :: unsigned)) = take_bit 32 (push_bit (unat s) (1 :: nat))"
    by (simp only: unsigned_push_bit_eq unat_1) simp
  also have "\<dots> = 2 ^ unat s"
    using lt by (simp only: push_bit_eq_mult mult_1) (simp only: take_bit_nat_eq_self)
  finally have a: "unat (push_bit (unat s) (1 :: unsigned)) = 2 ^ unat s" .
  have "(2 :: nat) ^ unat s < 2 ^ 64"
    using lt by simp
  then have "take_bit 64 ((2 :: nat) ^ unat s) = 2 ^ unat s"
    by (simp only: take_bit_nat_eq_self)
  then show ?thesis
    by (simp only: unsigned_ucast_eq a) simp
qed

lemma unat_shr5: "unat (drop_bit branching_log (w :: size_t)) = unat w div 32"
  by (simp only: unat_drop_bit_eq drop_bit_nat_def branching_log_def) simp

lemma overflow_cond:
  assumes "unat (s :: unsigned) < 32"
  shows "ucast (push_bit (unat s) (1 :: unsigned)) < drop_bit branching_log (w :: size_t)
           \<longleftrightarrow> 2 ^ unat s < unat w div 32"
  by (simp only: word_less_nat_alt unat_one_shl [OF assms] unat_shr5)

lemma pow32_mult_le:
  fixes t d :: nat
  assumes "32 dvd t" "32 ^ d < t div 32 + 1"
  shows "32 ^ (d + 1) \<le> t"
proof -
  have "32 ^ d \<le> t div 32"
    using assms(2) by simp
  then have "32 ^ d * 32 \<le> t div 32 * 32"
    by (rule mult_le_mono1)
  then show ?thesis
    using assms(1) by (simp add: mult.commute)
qed

lemma pow32_room:
  fixes t d :: nat
  assumes "32 dvd t" "\<not> 32 ^ d < t div 32 + 1"
  shows "t + 32 \<le> 32 ^ (d + 1)"
proof -
  have "t div 32 + 1 \<le> 32 ^ d"
    using assms(2) by simp
  then have "(t div 32 + 1) * 32 \<le> 32 ^ d * 32"
    by (rule mult_le_mono1)
  then show ?thesis
    using assms(1) by (simp add: mult.commute)
qed

lemma push_back_full:
  fixes h :: "'a::default heap"
  assumes inv: "vektor_inv h v xs" and full: "length xs - toff (length xs) = 32"
    and sh: "unat (shift_' v) < 32"
  shows "\<exists>v' zs. push_back h v x = Inr (v', h @ zs) \<and> vektor_inv (h @ zs) v' (xs @ [x]) \<and>
           size_' v' = size_' v + 1 \<and>
           (if 32 ^ (unat (shift_' v) div 5 + 1) \<le> toff (length xs)
            then shift_' v' = shift_' v + 5 \<and> length zs = unat (shift_' v) div 5 + 2 \<and>
                 (\<exists>a cs. root_' v' = Some a \<and> (h @ zs) ! a = Inner cs \<and> cs ! 0 = root_' v)
            else shift_' v' = shift_' v \<and> length zs = unat (shift_' v) div 5 + 1 \<and>
                 (\<exists>a cs pa cs0 nxt. root_' v' = Some a \<and> (h @ zs) ! a = Inner cs \<and>
                    root_' v = Some pa \<and> h ! pa = Inner cs0 \<and>
                    cs = cs0[toff (length xs) div 32 ^ (unat (shift_' v) div 5) := nxt]))"
proof -
  let ?n = "length xs"
  let ?t = "toff ?n"
  from inv obtain d a ys where sz: "unat (size_' v) = ?n"
    and d: "unat (shift_' v) = 5 * d" "1 \<le> d" "d \<le> 7"
      "rep {..<length h} h d (root_' v) (take ?t xs)" "?t \<le> 32 ^ (d + 1)"
      "1 < d \<longrightarrow> 32 ^ d < ?t"
    and tl: "tail_' v = Some a" "a < length h" "h ! a = Leaf ys" "length ys = 32"
      "take (?n - ?t) ys = drop ?t xs"
    unfolding vektor_inv_def by blast
  have sd: "unat (shift_' v) div 5 = d"
    using d(1) by simp
  have tf: "toff (Suc ?n) = ?n" "32 dvd ?n" "32 \<le> ?n"
    using toff_full [OF full] by simp_all
  have tle: "?t \<le> ?n"
    by (rule toff_le)
  have nt: "?n = ?t + 32"
    using full tle by linarith
  have tdvd: "32 dvd ?t"
    by (rule toff_dvd)
  have ndiv: "?n div 32 = ?t div 32 + 1"
    using nt tdvd by (metis div_add_self2 zero_neq_numeral)
  have ysx: "ys = drop ?t xs"
    using tl(4,5) full by simp
  have xsplit: "take ?t xs @ ys = xs"
    by (simp add: ysx)
  have ts: "unat (size_' v - tail_offset_' v) = 32"
    using inv_words(1) [OF inv] full by simp
  have nlt: "\<not> size_' v - tail_offset_' v < of_nat branching"
    using ts by (simp add: word_less_nat_alt branching_def branching_log_def)
  have nsh: "\<not> 32 \<le> shift_' v"
    using sh by (simp add: word_le_nat_alt)
  define h1 where "h1 = h @ [Leaf (x # replicate 31 default)]"
  have mk: "make_node_' h (leaf_t [x]) = (length h, h1)"
    by (simp add: make_node_'_def leaf_t_def branching_def branching_log_def h1_def)
  have cond: "drop_bit branching_log (size_' v) > ucast (push_bit (unat (shift_' v)) (1 :: unsigned))
      \<longleftrightarrow> 32 ^ d < ?t div 32 + 1"
    using overflow_cond [OF sh, of "size_' v"] by (simp only: sz d(1) pow2_5 ndiv)
  let ?A = "{..<length h}"
  have tail1: "rep ?A h1 0 (tail_' v) ys"
    using tl by (simp add: rep_0_iff h1_def nth_append)
  have root1: "rep ?A h1 d (root_' v) (take ?t xs)"
    unfolding h1_def using d(4) by (rule rep_append)
  have sz': "unat (size_' v + 1) = Suc ?n"
    using inv_words(2) [OF inv] by simp
  have tail': "take (Suc ?n - ?n) (x # replicate 31 default) = drop ?n (xs @ [x])"
    by simp
  show ?thesis
  proof (cases "32 ^ d < ?t div 32 + 1")
    case True
    have teq: "?t = 32 ^ (d + 1)"
      using pow32_mult_le [OF tdvd True] d(5) by simp
    obtain path h2 where mp: "make_path_' h1 (shift_' v) (tail_' v) = (path, h2)"
      by (cases "make_path_' h1 (shift_' v) (tail_' v)")
    from make_path_rep [OF tail1 d(1) mp]
    obtain zs where h2: "h2 = h1 @ zs" "length zs = d"
      and rp: "rep (?A \<union> {length h1 ..< length h1 + d}) h2 d path ys"
      by blast
    define cs where "cs = root_' v # path # replicate 30 None"
    define h3 where "h3 = h2 @ [Inner cs]"
    define v' where "v' = \<lparr>size_' = size_' v + 1, shift_' = shift_' v + of_nat branching_log,
                        root_' = Some (length h2), tail_' = Some (length h)\<rparr>"
    have res: "push_back h v x = Inr (v', h3)"
      using nlt nsh cond True mk mp
      by (simp add: push_back_def Let_def make_node_'_def inner_t_def branching_def
          branching_log_def v'_def h3_def cs_def)
    have sub0: "?A \<subseteq> {..<length h3}"
      by (auto simp: h3_def h2 h1_def)
    have sub1: "?A \<union> {length h1 ..< length h1 + d} \<subseteq> {..<length h3}"
      by (auto simp: h3_def h2 h1_def)
    have "rep ?A h3 d (root_' v) (take ?t xs)"
      unfolding h3_def h2 using root1 by (intro rep_append)
    then have r0: "rep {..<length h3} h3 d (root_' v) (take ?t xs)"
      using sub0 by (rule rep_mono)
    have "rep (?A \<union> {length h1 ..< length h1 + d}) h3 d path ys"
      unfolding h3_def using rp by (rule rep_append)
    then have r1: "rep {..<length h3} h3 d path ys"
      using sub1 by (rule rep_mono)
    define c :: nat where "c = 32 ^ (d + 1)"
    have tc: "?t = c"
      using teq by (simp only: c_def)
    have c32: "32 \<le> c"
      unfolding c_def by (rule pow32_ge)
    have kids': "\<forall>k<32. if k * c < length xs
                 then rep {..<length h3} h3 d (cs ! k) (take c (drop (k * c) xs))
                 else cs ! k = None"
    proof (intro allI impI)
      fix k :: nat
      assume k: "k < 32"
      consider (z) "k = 0" | (o) "k = 1" | (m) "2 \<le> k"
        by linarith
      then show "if k * c < length xs
                 then rep {..<length h3} h3 d (cs ! k) (take c (drop (k * c) xs))
                 else cs ! k = None"
      proof cases
        case z
        have "0 < ?n"
          using tf(3) by linarith
        then show ?thesis
          using r0 z by (simp add: cs_def tc)
      next
        case o
        have "c < ?n"
          using nt tc by simp
        moreover have "take c (drop c xs) = ys"
          using ysx tl(4) c32 by (simp add: tc)
        ultimately show ?thesis
          using r1 o by (simp add: cs_def)
      next
        case m
        have "2 * c \<le> k * c"
          using m by (rule mult_le_mono1)
        moreover have "?n \<le> 2 * c"
          using nt tc c32 by linarith
        ultimately have "\<not> k * c < ?n"
          by linarith
        moreover have "cs ! k = None"
          using m k by (simp add: cs_def nth_Cons')
        ultimately show ?thesis
          by (simp only: if_False)
      qed
    qed
    note kids = kids' [unfolded c_def]
    have nle: "?n \<le> 32 ^ (d + 2)"
    proof -
      have "32 ^ (d + 1) + 32 \<le> 32 ^ (d + 1) + (32 :: nat) ^ (d + 1)"
        using pow32_ge [of d] by simp
      then show ?thesis
        using nt teq by simp
    qed
    have rr: "rep {..<length h3} h3 (Suc d) (Some (length h2)) xs"
      unfolding rep_Suc_iff
      using kids nle tf(2)
      by (intro exI [of _ "length h2"] exI [of _ cs]) (simp add: h3_def cs_def)
    have d6: "d \<le> 6"
      using sh d(1) by simp
    have shv: "unat (shift_' v + 5) = 5 * Suc d"
      using d(1) d6 by (simp add: unat_add_lem [THEN iffD1])
    have "vektor_inv h3 v' (xs @ [x])"
    proof (rule vektor_invI [OF _ _ tf(1) [symmetric], of _ _ "Suc d" _ "length h" "x # replicate 31 default"])
      show "unat (size_' v') = Suc ?n"
        using sz' by (simp add: v'_def)
      show "Suc ?n = length (xs @ [x])"
        by simp
      show "unat (shift_' v') = 5 * Suc d"
        using shv by (simp add: v'_def branching_log_def)
      show "1 \<le> Suc d"
        by simp
      show "Suc d \<le> 7"
        using d6 by simp
      show "rep {..<length h3} h3 (Suc d) (root_' v') (take ?n (xs @ [x]))"
        using rr by (simp add: v'_def)
      show "?n \<le> 32 ^ (Suc d + 1)"
        using nle by simp
      show "1 < Suc d \<longrightarrow> 32 ^ Suc d < ?n"
        using nt teq by simp
      show "tail_' v' = Some (length h)"
        by (simp add: v'_def)
      show "length h < length h3"
        by (simp add: h3_def h2 h1_def)
      show "h3 ! length h = Leaf (x # replicate 31 default)"
        by (simp add: h3_def h2 h1_def nth_append)
      show "length (x # replicate 31 default) = 32"
        by simp
      show "take (Suc ?n - ?n) (x # replicate 31 default) = drop ?n (xs @ [x])"
        by (rule tail')
    qed
    moreover have "h3 = h @ (Leaf (x # replicate 31 default) # zs @ [Inner cs])"
      by (simp add: h3_def h2 h1_def)
    moreover have "32 ^ (unat (shift_' v) div 5 + 1) \<le> ?t"
      using teq by (simp add: sd)
    moreover have "h3 ! length h2 = Inner cs" "cs ! 0 = root_' v"
      by (simp_all add: h3_def cs_def)
    ultimately show ?thesis
      using res h2(2)
      by (intro exI [of _ v'] exI [of _ "Leaf (x # replicate 31 default) # zs @ [Inner cs]"])
        (simp add: v'_def sd branching_log_def)
  next
    case False
    have room: "?t + 32 \<le> 32 ^ (d + 1)"
      using pow32_room [OF tdvd False] .
    obtain d' where d': "d = Suc d'"
      using d(2) by (cases d) simp_all
    have lvl: "unat (shift_' v) = 5 * Suc d'"
      using d(1) d' by simp
    have A1: "?A \<subseteq> {..<length h1}"
      by (auto simp: h1_def)
    have d12: "Suc d' \<le> 12"
      using d(3) d' by simp
    have lr: "length (take ?t xs) + 32 \<le> 32 ^ (d' + 2)"
      using room tle d' by simp
    have "size_' v \<noteq> 0"
      using sz tf(3) by auto
    then have "unat (size_' v - 1) = ?n - 1"
      using sz by (simp add: unat_minus_one)
    moreover have "?n - 1 < 32 ^ (d' + 2)"
      using room nt d' by simp
    ultimately have sm: "unat (size_' v - 1) mod 32 ^ (d' + 2) = length (take ?t xs) + 31"
      using nt tle by simp
    from push_tail_rep [OF root1 [unfolded d'] tail1 A1 lvl d12 lr sm]
    obtain cs' zs pa cs0 nxt where
      pt: "push_tail_' h1 v (shift_' v) (root_' v) (tail_' v)
            = Inr (Some (length h1), h1 @ Inner cs' # zs)"
      and lz: "length zs = d'"
      and rp: "rep (?A \<union> {length h1 ..< length h1 + Suc d'}) (h1 @ Inner cs' # zs) (Suc d')
                 (Some (length h1)) (take ?t xs @ ys)"
      and shr: "root_' v = Some pa" "h1 ! pa = Inner cs0"
        "cs' = cs0[length (take ?t xs) div 32 ^ (d' + 1) := nxt]"
      by blast
    define h2 where "h2 = h1 @ Inner cs' # zs"
    define v' where "v' = \<lparr>size_' = size_' v + 1, shift_' = shift_' v,
                        root_' = Some (length h1), tail_' = Some (length h)\<rparr>"
    have res: "push_back h v x = Inr (v', h2)"
      using nlt nsh cond False mk pt
      by (simp add: push_back_def Let_def v'_def h2_def)
    have sub2: "?A \<union> {length h1 ..< length h1 + Suc d'} \<subseteq> {..<length h2}"
      by (auto simp: h2_def h1_def lz)
    have "rep (?A \<union> {length h1 ..< length h1 + Suc d'}) h2 d (Some (length h1)) xs"
      using rp by (simp only: xsplit h2_def d')
    then have rr: "rep {..<length h2} h2 d (Some (length h1)) xs"
      using sub2 by (rule rep_mono)
    have pa: "pa < length h" "h ! pa = Inner cs0"
    proof -
      from d(4) shr(1) show "pa < length h"
        by (cases d) (auto simp: rep_0_iff rep_Suc_iff)
      then show "h ! pa = Inner cs0"
        using shr(2) by (simp add: h1_def nth_append)
    qed
    have "vektor_inv h2 v' (xs @ [x])"
    proof (rule vektor_invI [OF _ _ tf(1) [symmetric], of _ _ d _ "length h" "x # replicate 31 default"])
      show "unat (size_' v') = Suc ?n"
        using sz' by (simp add: v'_def)
      show "Suc ?n = length (xs @ [x])"
        by simp
      show "unat (shift_' v') = 5 * d"
        using d(1) by (simp add: v'_def)
      show "1 \<le> d"
        by (rule d(2))
      show "d \<le> 7"
        by (rule d(3))
      show "rep {..<length h2} h2 d (root_' v') (take ?n (xs @ [x]))"
        using rr by (simp add: v'_def)
      show "?n \<le> 32 ^ (d + 1)"
        using room nt by simp
      show "1 < d \<longrightarrow> 32 ^ d < ?n"
        using d(6) tle by auto
      show "tail_' v' = Some (length h)"
        by (simp add: v'_def)
      show "length h < length h2"
        by (simp add: h2_def h1_def)
      show "h2 ! length h = Leaf (x # replicate 31 default)"
        by (simp add: h2_def h1_def nth_append)
      show "length (x # replicate 31 default) = 32"
        by simp
      show "take (Suc ?n - ?n) (x # replicate 31 default) = drop ?n (xs @ [x])"
        by (rule tail')
    qed
    moreover have "h2 = h @ (Leaf (x # replicate 31 default) # Inner cs' # zs)"
      by (simp add: h2_def h1_def)
    moreover have "\<not> 32 ^ (unat (shift_' v) div 5 + 1) \<le> ?t"
      using room by (simp add: sd)
    moreover have "h2 ! length h1 = Inner cs'"
      by (simp add: h2_def)
    moreover have "cs' = cs0[?t div 32 ^ (unat (shift_' v) div 5) := nxt]"
      using shr(3) tle by (simp add: sd d')
    ultimately show ?thesis
      using res lz pa shr(1)
      by (intro exI [of _ v'] exI [of _ "Leaf (x # replicate 31 default) # Inner cs' # zs"])
        (auto simp: v'_def sd d')
  qed
qed

section \<open>Appending preserves the representation\<close>

lemma vektor_inv_empty: "vektor_inv (heap0 :: 'a::default heap) empty_' []"
proof (rule vektor_invI [of _ 0 _ 0 1 _ 1 "replicate 32 default"])
  show "unat (size_' empty_') = 0"
    by (simp add: empty_'_def)
  show "0 = length []"
    by simp
  show "0 = toff 0"
    by (simp add: toff_def)
  show "unat (shift_' empty_') = 5 * 1"
    by (simp add: empty_'_def branching_log_def)
  show "rep {..<length (heap0 :: 'a heap)} (heap0 :: 'a heap) 1 (root_' empty_') (take 0 [])"
    by (simp add: rep_Suc_iff [of _ _ 0, simplified] heap0_def empty_'_def empty_inner_'_def
        inner_t_def branching_def branching_log_def)
  show "tail_' empty_' = Some 1"
    by (simp add: empty_'_def empty_leaf_'_def)
  show "1 < length (heap0 :: 'a heap)"
    by (simp add: heap0_def)
  show "(heap0 :: 'a heap) ! 1 = Leaf (replicate 32 default)"
    by (simp add: heap0_def leaf_t_def branching_def branching_log_def)
qed simp_all

lemma vektor_inv_append:
  assumes "vektor_inv h v xs"
  shows "vektor_inv (h @ zs) v xs"
proof -
  let ?n = "length xs"
  let ?t = "toff ?n"
  from assms obtain d a ys where sz: "unat (size_' v) = ?n"
    and d: "unat (shift_' v) = 5 * d" "1 \<le> d" "d \<le> 7"
      "rep {..<length h} h d (root_' v) (take ?t xs)" "?t \<le> 32 ^ (d + 1)"
      "1 < d \<longrightarrow> 32 ^ d < ?t"
    and tl: "tail_' v = Some a" "a < length h" "h ! a = Leaf ys" "length ys = 32"
      "take (?n - ?t) ys = drop ?t xs"
    unfolding vektor_inv_def by blast
  have "rep {..<length h} (h @ zs) d (root_' v) (take ?t xs)"
    using d(4) by (rule rep_append)
  then have r: "rep {..<length (h @ zs)} (h @ zs) d (root_' v) (take ?t xs)"
    by (rule rep_mono) auto
  show ?thesis
  proof (rule vektor_invI [OF sz refl refl d(1,2,3) r d(5,6) tl(1) _ _ tl(4,5)])
    show "a < length (h @ zs)"
      using tl(2) by simp
    show "(h @ zs) ! a = Leaf ys"
      using tl(2,3) by (simp add: nth_append)
  qed
qed

lemma push_back_undefined:
  fixes h :: "'a::default heap"
  assumes inv: "vektor_inv h v xs" and full: "length xs - toff (length xs) = 32"
    and sh: "\<not> unat (shift_' v) < 32"
  shows "push_back h v x = Inl UndefinedShift"
proof -
  have ts: "unat (size_' v - tail_offset_' v) = 32"
    using inv_words(1) [OF inv] full by simp
  have nlt: "\<not> size_' v - tail_offset_' v < of_nat branching"
    using ts by (simp add: word_less_nat_alt branching_def branching_log_def)
  have "32 \<le> shift_' v"
    using sh by (simp add: word_le_nat_alt)
  with nlt show ?thesis
    by (simp add: push_back_def Let_def make_node_'_def)
qed

lemma push_back_inv:
  fixes h :: "'a::default heap"
  assumes inv: "vektor_inv h v xs" and pb: "push_back h v x = Inr (v', h')"
  shows "vektor_inv h' v' (xs @ [x]) \<and> size_' v' = size_' v + 1 \<and>
         (\<exists>zs. h' = h @ zs \<and> 1 \<le> length zs \<and> length zs \<le> unat (shift_' v) div 5 + 2 \<and>
               (length zs = 1 \<or> 32 \<le> length xs))"
proof -
  consider (room) "length xs - toff (length xs) < 32"
    | (full) "length xs - toff (length xs) = 32"
    using toff_tail [of "length xs"] by linarith
  then show ?thesis
  proof cases
    case room
    from push_back_room [OF inv room, of x] pb show ?thesis
      by auto
  next
    case full
    have sh: "unat (shift_' v) < 32"
      using push_back_undefined [OF inv full, of x] pb by auto
    have "32 \<le> length xs"
      using full by linarith
    with push_back_full [OF inv full sh, of x] pb show ?thesis
      by (auto split: if_splits)
  qed
qed

lemma shift_small:
  assumes inv: "vektor_inv h v xs" and n: "length xs \<le> 2 ^ 35 + 32"
  shows "unat (shift_' v) < 32"
proof -
  from inv obtain d where d: "unat (shift_' v) = 5 * d" "1 < d \<longrightarrow> 32 ^ d < toff (length xs)"
    unfolding vektor_inv_def by blast
  have "d < 7"
  proof (rule ccontr)
    assume "\<not> d < 7"
    then have d7: "7 \<le> d"
      by simp
    then have "(32 :: nat) ^ 7 \<le> 32 ^ d"
      by (intro power_increasing) simp_all
    moreover have "32 ^ d < toff (length xs)"
      using d(2) d7 by simp
    ultimately have big: "2 ^ 35 < toff (length xs)"
      by simp
    show False
    proof (cases "length xs < 32")
      case True
      then show False
        using big by (simp add: toff_def)
    next
      case False
      have "(length xs - 1) div 32 \<le> (2 ^ 35 + 31) div 32"
        using n by (intro div_le_mono) simp
      then have "(length xs - 1) div 32 * 32 \<le> 2 ^ 35"
        by simp
      then show False
        using big False by (simp add: toff_def)
    qed
  qed
  then show ?thesis
    using d(1) by simp
qed

lemma push_back_defined:
  fixes h :: "'a::default heap"
  assumes inv: "vektor_inv h v xs" and n: "length xs \<le> 2 ^ 35 + 32"
  shows "\<exists>v' h'. push_back h v x = Inr (v', h')"
proof -
  consider (room) "length xs - toff (length xs) < 32"
    | (full) "length xs - toff (length xs) = 32"
    using toff_tail [of "length xs"] by linarith
  then show ?thesis
  proof cases
    case room
    from push_back_room [OF inv room, of x] show ?thesis
      by blast
  next
    case full
    from push_back_full [OF inv full shift_small [OF inv n], of x] show ?thesis
      by blast
  qed
qed

lemma built_inv: "built h v xs \<Longrightarrow> vektor_inv h v xs"
proof (induction rule: built.induct)
  case built_empty
  show ?case
    by (rule vektor_inv_empty)
next
  case (built_push h v xs x v' h')
  then show ?case
    using push_back_inv by blast
next
  case (built_other h v xs w ys y w' h')
  from push_back_inv [OF built_other.IH(2) built_other.hyps(3)]
  obtain zs where "h' = h @ zs"
    by blast
  then show ?case
    using vektor_inv_append [OF built_other.IH(1)] by simp
qed

lemma built_push_back_all:
  "built h v xs \<Longrightarrow> push_back_all h v ys = Inr (v', h') \<Longrightarrow> built h' v' (xs @ ys)"
proof (induction ys arbitrary: h v xs)
  case Nil
  then show ?case
    by simp
next
  case (Cons y ys)
  from Cons.prems(2) obtain v1 h1 where s: "push_back h v y = Inr (v1, h1)"
    and r: "push_back_all h1 v1 ys = Inr (v', h')"
    by (auto split: sum.splits)
  have "built h1 v1 (xs @ [y])"
    using Cons.prems(1) s by (rule built_push)
  from Cons.IH [OF this r] show ?case
    by simp
qed

lemma push_back_all_defined:
  fixes h :: "'a::default heap"
  shows "vektor_inv h v xs \<Longrightarrow> length xs + length ys \<le> 2 ^ 35 + 33 \<Longrightarrow>
    \<exists>v' h'. push_back_all h v ys = Inr (v', h')"
proof (induction ys arbitrary: h v xs)
  case Nil
  then show ?case
    by simp
next
  case (Cons y ys)
  have "length xs \<le> 2 ^ 35 + 32"
    using Cons.prems(2) by simp
  from push_back_defined [OF Cons.prems(1) this, of y]
  obtain v1 h1 where s: "push_back h v y = Inr (v1, h1)"
    by blast
  have inv1: "vektor_inv h1 v1 (xs @ [y])"
    using push_back_inv [OF Cons.prems(1) s] by blast
  have "length (xs @ [y]) + length ys \<le> 2 ^ 35 + 33"
    using Cons.prems(2) by simp
  from Cons.IH [OF inv1 this] s show ?case
    by simp
qed

lemma from_list_built:
  "from_list xs = Inr (v, h) \<Longrightarrow> built h v xs"
  unfolding from_list_def using built_push_back_all [OF built_empty, of xs v h] by simp

lemma from_list_defined:
  "length (xs :: 'a::default list) \<le> 2 ^ 35 \<Longrightarrow> \<exists>v h. from_list xs = Inr (v, h)"
  unfolding from_list_def
  using push_back_all_defined [OF vektor_inv_empty, of xs] by simp

section \<open>The claims about appending and indexing\<close>

lemma unat_of_nat_small:
  assumes "vektor_inv h v xs" "i \<le> length xs"
  shows "unat (of_nat i :: size_t) = i"
proof -
  have "i < 2 ^ 64"
    using unat_size_bound [OF assms(1)] assms(2) by simp
  then show ?thesis
    by (simp add: unat_of_nat)
qed

lemma at_built:
  assumes b: "built h v xs" and i: "i < length xs"
  shows "at_vektor h v (of_nat i) = Inr (xs ! i)"
proof -
  have inv: "vektor_inv h v xs"
    using b by (rule built_inv)
  have u: "unat (of_nat i :: size_t) = i"
    using unat_of_nat_small [OF inv] i by simp
  have "unat (size_' v) = length xs"
    using inv by (simp add: vektor_inv_def)
  then have "(of_nat i :: size_t) < size_' v"
    using i u by (simp add: word_less_nat_alt)
  from at_inv [OF inv this] show ?thesis
    by (simp add: u)
qed

text \<open>
  Claim C1. For every vector \<open>v\<close> obtained from the empty vector by appending the elements
  \<open>xs\<close> with \<open>push_back\<close>, \<open>size(v)\<close> is the length of \<open>xs\<close> and \<open>at(v, i)\<close> returns
  the \<open>i\<close>-th element appended, for every \<open>i\<close> below the size; appending one more element
  to such a vector gives a vector whose size is larger by one. Appending returns a vector
  (it meets none of the errors of the model) as long as at most \<open>2 ^ 35\<close> elements were
  appended before, and a vector exists for every list of at most \<open>2 ^ 35\<close> elements.
\<close>

theorem push_back_appends:
  fixes xs :: "'a::default list"
  shows "(\<forall>h v. built h v xs \<longrightarrow>
            unat (size_vektor v) = length xs \<and>
            (\<forall>i<length xs. at_vektor h v (of_nat i) = Inr (xs ! i)) \<and>
            (\<forall>x v' h'. push_back h v x = Inr (v', h') \<longrightarrow>
               size_vektor v' = size_vektor v + 1 \<and> unat (size_vektor v') = length xs + 1) \<and>
            (length xs \<le> 2 ^ 35 \<longrightarrow> (\<forall>x. \<exists>v' h'. push_back h v x = Inr (v', h')))) \<and>
         (length xs \<le> 2 ^ 35 \<longrightarrow> (\<exists>v h. from_list xs = Inr (v, h) \<and> built h v xs))"
proof (intro conjI allI impI)
  fix h :: "'a heap" and v
  assume b: "built h v xs"
  then have inv: "vektor_inv h v xs"
    by (rule built_inv)
  show "unat (size_vektor v) = length xs"
    using inv by (simp add: vektor_inv_def size_vektor_def)
  show "at_vektor h v (of_nat i) = Inr (xs ! i)" if "i < length xs" for i
    using b that by (rule at_built)
  show "size_vektor v' = size_vektor v + 1" if "push_back h v x = Inr (v', h')" for x v' h'
    using push_back_inv [OF inv that] by (simp add: size_vektor_def)
  show "unat (size_vektor v') = length xs + 1" if "push_back h v x = Inr (v', h')" for x v' h'
    using push_back_inv [OF inv that] inv_words(2) [OF inv] by (simp add: size_vektor_def)
  show "\<exists>v' h'. push_back h v x = Inr (v', h')" if "length xs \<le> 2 ^ 35" for x
    using that by (intro push_back_defined [OF inv]) simp
next
  assume "length xs \<le> 2 ^ 35"
  then obtain v h where "from_list xs = Inr (v, h)"
    using from_list_defined by blast
  then show "\<exists>v h. from_list xs = Inr (v, h) \<and> built h v xs"
    using from_list_built by blast
qed

theorem push_back_appends_witness:
  "\<exists>v h. from_list [10, 20, 30 :: int] = Inr (v, h) \<and> built h v [10, 20, 30] \<and>
     unat (size_vektor v) = 3 \<and>
     at_vektor h v 0 = Inr 10 \<and> at_vektor h v 1 = Inr 20 \<and> at_vektor h v 2 = Inr 30"
proof -
  note t = push_back_appends [of "[10, 20, 30 :: int]"]
  from t obtain v h where f: "from_list [10, 20, 30 :: int] = Inr (v, h)"
    and b: "built h v [10, 20, 30]"
    by auto
  from t b have s: "unat (size_vektor v) = 3"
    and a: "\<forall>i<3. at_vektor h v (of_nat i) = Inr ([10, 20, 30] ! i)"
    by auto
  have "at_vektor h v 0 = Inr 10" "at_vektor h v 1 = Inr 20" "at_vektor h v 2 = Inr 30"
    using a [rule_format, of 0] a [rule_format, of 1] a [rule_format, of 2] by simp_all
  with f b s show ?thesis
    by auto
qed

lemma shift_by_size:
  assumes inv: "vektor_inv h v xs"
  shows "length xs \<le> 1056 \<Longrightarrow> shift_' v = 5"
    and "1057 \<le> length xs \<Longrightarrow> length xs \<le> 32800 \<Longrightarrow> shift_' v = 10"
proof -
  let ?n = "length xs"
  from inv obtain d where d: "unat (shift_' v) = 5 * d" "1 \<le> d"
    "toff ?n \<le> 32 ^ (d + 1)" "1 < d \<longrightarrow> 32 ^ d < toff ?n"
    unfolding vektor_inv_def by blast
  have "of_nat (unat (shift_' v)) = shift_' v"
    by simp
  then have w: "shift_' v = of_nat (5 * d)"
    by (simp only: d(1))
  {
    assume n: "?n \<le> 1056"
    have "toff ?n \<le> 1024"
    proof (cases "?n < 32")
      case True
      then show ?thesis
        by (simp add: toff_def)
    next
      case False
      have "(?n - 1) div 32 \<le> 1055 div 32"
        using n by (intro div_le_mono) simp
      then show ?thesis
        using False by (simp add: toff_def)
    qed
    moreover have "(32 :: nat) ^ 2 \<le> 32 ^ d" if "1 < d"
      using that by (intro power_increasing) simp_all
    ultimately have "d = 1"
      using d(2,4) by (cases "1 < d") auto
    then show "shift_' v = 5"
      using w by simp
  }
  {
    assume lo: "1057 \<le> ?n" and hi: "?n \<le> 32800"
    have "1056 div 32 \<le> (?n - 1) div 32"
      using lo by (intro div_le_mono) simp
    then have t1: "1056 \<le> toff ?n"
      using lo by (simp add: toff_def)
    have "(?n - 1) div 32 \<le> 32799 div 32"
      using hi by (intro div_le_mono) simp
    then have t2: "toff ?n \<le> 32768"
      using lo by (simp add: toff_def)
    have "d \<noteq> 1"
      using t1 d(3) by auto
    moreover have "(32 :: nat) ^ 3 \<le> 32 ^ d" if "2 < d"
      using that by (intro power_increasing) simp_all
    then have "\<not> 2 < d"
      using t2 d(4) by auto
    ultimately have "d = 2"
      using d(2) by simp
    then show "shift_' v = 10"
      using w by simp
  }
qed

lemma shift_of_from_list:
  fixes xs :: "'a::default list"
  shows "length xs \<le> 1056 \<Longrightarrow> shift_of (from_list xs) = Inr 5"
    and "1057 \<le> length xs \<Longrightarrow> length xs \<le> 32800 \<Longrightarrow> shift_of (from_list xs) = Inr 10"
proof -
  {
    assume n: "length xs \<le> 1056"
    then have "length xs \<le> 2 ^ 35"
      by simp
    then obtain v h where f: "from_list xs = Inr (v, h)"
      using from_list_defined by blast
    then have "vektor_inv h v xs"
      using from_list_built built_inv by blast
    from shift_by_size(1) [OF this n] f show "shift_of (from_list xs) = Inr 5"
      by (simp add: shift_of_def)
  }
  {
    assume lo: "1057 \<le> length xs" and hi: "length xs \<le> 32800"
    then have "length xs \<le> 2 ^ 35"
      by simp
    then obtain v h where f: "from_list xs = Inr (v, h)"
      using from_list_defined by blast
    then have "vektor_inv h v xs"
      using from_list_built built_inv by blast
    from shift_by_size(2) [OF this lo hi] f show "shift_of (from_list xs) = Inr 10"
      by (simp add: shift_of_def)
  }
qed

text \<open>
  Claim C3 says that, appending the values 0..1024 to the empty vector, the 1025th append
  takes the root-overflow branch and the shift goes from 5 to 10. It does not: the shift
  is 5 after 1024 appends and still 5 after 1025 appends.
\<close>

theorem no_root_overflow_at_1025:
  "shift_of (from_list (map int [0..<1024])) = Inr 5 \<and>
   shift_of (from_list (map int [0..<1025])) = Inr 5 \<and>
   shift_of (from_list (map int [0..<1025])) \<noteq> Inr 10"
proof -
  have "shift_of (from_list (map int [0..<1024])) = Inr 5"
    by (rule shift_of_from_list(1)) simp
  moreover have "shift_of (from_list (map int [0..<1025])) = Inr 5"
    by (rule shift_of_from_list(1)) simp
  ultimately show ?thesis
    by simp
qed

text \<open>
  Claim C3, amended. Appending the values 0..1024 to the empty vector, the 1025th append
  does not take the root-overflow branch: the shift is 5 before and after it. The branch is
  first taken by the 1057th append, where the shift goes from 5 to 10. After the 1025
  appends the size is 1025 and \<open>at(v, i) = i\<close> for every \<open>i < 1025\<close>.
\<close>

theorem root_overflow_at_1057:
  "shift_of (from_list (map int [0..<1024])) = Inr 5 \<and>
   shift_of (from_list (map int [0..<1025])) = Inr 5 \<and>
   shift_of (from_list (map int [0..<1056])) = Inr 5 \<and>
   shift_of (from_list (map int [0..<1057])) = Inr 10 \<and>
   (\<exists>v h. from_list (map int [0..<1025]) = Inr (v, h) \<and> size_vektor v = 1025 \<and>
      (\<forall>i<1025. at_vektor h v (of_nat i) = Inr (int i)))"
proof -
  have "length (map int [0..<1025]) \<le> 2 ^ 35"
    by simp
  then obtain v h where f: "from_list (map int [0..<1025]) = Inr (v, h)"
    using from_list_defined by blast
  then have b: "built h v (map int [0..<1025])"
    by (rule from_list_built)
  have u: "unat (size_' v) = 1025"
    using built_inv [OF b] by (simp add: vektor_inv_def)
  have "of_nat (unat (size_' v)) = size_' v"
    by simp
  then have "size_' v = of_nat 1025"
    by (simp only: u)
  then have s: "size_vektor v = 1025"
    by (simp add: size_vektor_def)
  have a: "\<forall>i<1025. at_vektor h v (of_nat i) = Inr (int i)"
  proof (intro allI impI)
    fix i :: nat
    assume i: "i < 1025"
    then have "at_vektor h v (of_nat i) = Inr (map int [0..<1025] ! i)"
      using at_built [OF b, of i] by simp
    also have "map int [0..<1025] ! i = int i"
      using i by (simp del: upt_Suc)
    finally show "at_vektor h v (of_nat i) = Inr (int i)" .
  qed
  have "shift_of (from_list (map int [0..<1024])) = Inr 5"
    by (rule shift_of_from_list(1)) simp
  moreover have "shift_of (from_list (map int [0..<1025])) = Inr 5"
    by (rule shift_of_from_list(1)) simp
  moreover have "shift_of (from_list (map int [0..<1056])) = Inr 5"
    by (rule shift_of_from_list(1)) simp
  moreover have "shift_of (from_list (map int [0..<1057])) = Inr 10"
    by (rule shift_of_from_list(2)) simp_all
  ultimately show ?thesis
    using f s a by blast
qed

theorem root_overflow_at_1057_witness:
  "\<exists>v h. from_list (map int [0..<1025]) = Inr (v, h) \<and> size_vektor v = 1025 \<and>
      at_vektor h v 0 = Inr 0 \<and> at_vektor h v 1024 = Inr 1024"
proof -
  from root_overflow_at_1057 obtain v h where
    f: "from_list (map int [0..<1025]) = Inr (v, h)" "size_vektor v = 1025"
    and a: "\<forall>i<1025. at_vektor h v (of_nat i) = Inr (int i)"
    by blast
  have "at_vektor h v 0 = Inr 0" "at_vektor h v 1024 = Inr 1024"
    using a [rule_format, of 0] a [rule_format, of 1024] by simp_all
  with f show ?thesis
    by blast
qed

lemma from_list_one: "from_list [7 :: int] = Inr (vektor_one, heap_one)"
  by code_simp

text \<open>
  Claim C4 says that in every vector reachable from the empty one the shift is the smallest
  multiple of \<open>L\<close> with \<open>B ^ (shift / L + 1) \<ge> tail_offset\<close>, the empty state apart. The
  vector of the 33 elements 0..32 is not empty, its main tree is not empty either (its
  tail offset is 32) and its shift is 5, but the multiple 0 of \<open>L\<close> is smaller and
  admissible, since \<open>B ^ 1 \<ge> 32\<close>. The same holds of the vector of one element.
\<close>

theorem shift_not_smallest_multiple:
  "vektor_of (from_list (map int [0..<33])) = Inr vektor_33 \<and>
   tail_offset_' vektor_33 = 32 \<and> \<not> shift_invariant_spec vektor_33 \<and>
   vektor_of (from_list [7 :: int]) = Inr vektor_one \<and> \<not> shift_invariant_spec vektor_one"
proof -
  have f: "vektor_of (from_list (map int [0..<33])) = Inr vektor_33"
    by code_simp
  have t: "tail_offset_' vektor_33 = 32"
    by (simp add: vektor_33_def tail_offset_'_def branching_log_def)
  have "admissible vektor_33 0"
    by (simp add: admissible_def t branching_def branching_log_def)
  moreover have "0 < unat (shift_' vektor_33)"
    by (simp add: vektor_33_def)
  ultimately have "\<not> smallest_admissible vektor_33"
    unfolding smallest_admissible_def by blast
  moreover have "size_' vektor_33 \<noteq> 0"
    by (simp add: vektor_33_def)
  ultimately have n33: "\<not> shift_invariant_spec vektor_33"
    by (simp add: shift_invariant_spec_def)
  have "admissible vektor_one 0"
    by (simp add: admissible_def vektor_one_def tail_offset_'_def)
  moreover have "0 < unat (shift_' vektor_one)"
    by (simp add: vektor_one_def)
  ultimately have "\<not> smallest_admissible vektor_one"
    unfolding smallest_admissible_def by blast
  moreover have "size_' vektor_one \<noteq> 0"
    by (simp add: vektor_one_def)
  ultimately have n1: "\<not> shift_invariant_spec vektor_one"
    by (simp add: shift_invariant_spec_def)
  show ?thesis
    using f t n33 n1 from_list_one by (simp add: vektor_of_def)
qed

text \<open>
  Claim C4, amended. In every vector reachable from the empty vector by appending, the
  shift is the smallest positive multiple of \<open>L\<close> such that
  \<open>B ^ (shift / L + 1) \<ge> tail_offset\<close>.
\<close>

theorem shift_smallest_positive_multiple:
  "built h v xs \<Longrightarrow> smallest_positive_admissible v"
proof -
  assume "built h v xs"
  then have inv: "vektor_inv h v xs"
    by (rule built_inv)
  let ?t = "toff (length xs)"
  from inv obtain d where sz: "unat (size_' v) = length xs"
    and d: "unat (shift_' v) = 5 * d" "1 \<le> d" "?t \<le> 32 ^ (d + 1)" "1 < d \<longrightarrow> 32 ^ d < ?t"
    unfolding vektor_inv_def by blast
  have t: "unat (tail_offset_' v) = ?t"
    by (simp add: unat_tail_offset sz)
  have adm: "admissible v s \<longleftrightarrow> 5 dvd s \<and> ?t \<le> 32 ^ (s div 5 + 1)" for s
    by (simp add: admissible_def t branching_def branching_log_def)
  have a: "admissible v (unat (shift_' v))"
    using d(1,3) by (simp add: adm)
  have m: "\<not> admissible v s" if s: "s < unat (shift_' v)" "0 < s" for s
  proof
    assume "admissible v s"
    then have dv: "5 dvd s" and le: "?t \<le> 32 ^ (s div 5 + 1)"
      by (simp_all add: adm)
    from dv obtain e where e: "s = 5 * e"
      by (auto elim: dvdE)
    have e1: "1 \<le> e" "e < d"
      using s e d(1) by simp_all
    then have "(32 :: nat) ^ (e + 1) \<le> 32 ^ d"
      by (intro power_increasing) simp_all
    moreover have "32 ^ d < ?t"
      using d(4) e1 by simp
    ultimately show False
      using le e by simp
  qed
  show ?thesis
    unfolding smallest_positive_admissible_def using a m d(1,2) by simp
qed

theorem shift_smallest_positive_multiple_witness:
  "built heap_one vektor_one [7] \<and> smallest_positive_admissible vektor_one"
proof -
  have "built heap_one vektor_one [7]"
    using from_list_one by (rule from_list_built)
  then show ?thesis
    using shift_smallest_positive_multiple by blast
qed

lemma depth_le_ceiling_log:
  assumes "32 ^ d \<le> n + 1"
  shows "int d \<le> \<lceil>log 32 (real n + 1)\<rceil>"
proof -
  have "real d = log 32 (32 ^ d)"
    by (simp add: log_nat_power)
  also have "\<dots> \<le> log 32 (real n + 1)"
  proof -
    have "(32 :: real) ^ d \<le> real n + 1"
      using assms by (metis of_nat_le_iff of_nat_power of_nat_numeral of_nat_Suc Suc_eq_plus1 add.commute)
    then show ?thesis
      by (subst log_le_cancel_iff) simp_all
  qed
  finally have "real d \<le> log 32 (real n + 1)" .
  then have "real d \<le> real_of_int \<lceil>log 32 (real n + 1)\<rceil>"
    by linarith
  then show ?thesis
    by linarith
qed

text \<open>
  Claim C2. For a reachable vector \<open>v\<close> and \<open>v' = push_back(v, x)\<close>: no node of the store
  that existed before the call is changed, \<open>v\<close> is still a vector of the same elements,
  \<open>at(v, i)\<close> returns the same element as before for every \<open>i\<close> below the size of \<open>v\<close>, the
  new vector has these elements too, its size is larger by one and \<open>at(v', size(v)) = x\<close>.
  The call returns a vector when \<open>v\<close> has at most \<open>2 ^ 35\<close> elements.
\<close>

theorem push_back_persistent:
  fixes h :: "'a::default heap"
  assumes b: "built h v xs"
  shows "(length xs \<le> 2 ^ 35 \<longrightarrow> (\<exists>v' h'. push_back h v x = Inr (v', h'))) \<and>
         (\<forall>v' h'. push_back h v x = Inr (v', h') \<longrightarrow>
            prefix h h' \<and> built h' v xs \<and>
            size_vektor v' = size_vektor v + 1 \<and>
            (\<forall>i<length xs. at_vektor h' v (of_nat i) = at_vektor h v (of_nat i) \<and>
                            at_vektor h v (of_nat i) = Inr (xs ! i) \<and>
                            at_vektor h' v' (of_nat i) = Inr (xs ! i)) \<and>
            at_vektor h' v' (size_vektor v) = Inr x)"
proof (intro conjI allI impI)
  have inv: "vektor_inv h v xs"
    using b by (rule built_inv)
  show "\<exists>v' h'. push_back h v x = Inr (v', h')" if "length xs \<le> 2 ^ 35"
    using that by (intro push_back_defined [OF inv]) simp
  fix v' h'
  assume pb: "push_back h v x = Inr (v', h')"
  have b0: "built h' v xs"
    using b b pb by (rule built_other)
  have b1: "built h' v' (xs @ [x])"
    using b pb by (rule built_push)
  show "prefix h h'"
    using push_back_inv [OF inv pb] by auto
  show "built h' v xs"
    by (rule b0)
  show "size_vektor v' = size_vektor v + 1"
    using push_back_inv [OF inv pb] by (simp add: size_vektor_def)
  have "of_nat (unat (size_' v)) = size_' v"
    by simp
  moreover have "unat (size_' v) = length xs"
    using inv by (simp add: vektor_inv_def)
  ultimately have sz: "size_vektor v = of_nat (length xs)"
    by (simp add: size_vektor_def)
  show "at_vektor h' v' (size_vektor v) = Inr x"
    using at_built [OF b1, of "length xs"] by (simp add: sz)
  fix i
  assume i: "i < length xs"
  show "at_vektor h' v (of_nat i) = at_vektor h v (of_nat i)"
    using at_built [OF b i] at_built [OF b0 i] by simp
  show "at_vektor h v (of_nat i) = Inr (xs ! i)"
    using at_built [OF b i] .
  show "at_vektor h' v' (of_nat i) = Inr (xs ! i)"
    using at_built [OF b1, of i] i by (simp add: nth_append)
qed

theorem push_back_persistent_witness:
  "\<exists>v0 h0 v1 h1. from_list (map int [0..<50]) = Inr (v0, h0) \<and>
     push_back h0 v0 999 = Inr (v1, h1) \<and> prefix h0 h1 \<and>
     unat (size_vektor v0) = 50 \<and> size_vektor v1 = size_vektor v0 + 1 \<and>
     at_vektor h1 v1 (size_vektor v0) = Inr 999 \<and>
     at_vektor h1 v0 49 = Inr 49 \<and> at_vektor h0 v0 49 = Inr 49 \<and> at_vektor h1 v1 49 = Inr 49"
proof -
  have "length (map int [0..<50]) \<le> 2 ^ 35"
    by simp
  then obtain v0 h0 where f: "from_list (map int [0..<50]) = Inr (v0, h0)"
    using from_list_defined by blast
  then have b: "built h0 v0 (map int [0..<50])"
    by (rule from_list_built)
  note t = push_back_persistent [OF b, of 999]
  from t obtain v1 h1 where pb: "push_back h0 v0 999 = Inr (v1, h1)"
    by auto
  from t pb have p: "prefix h0 h1" "size_vektor v1 = size_vektor v0 + 1"
    "at_vektor h1 v1 (size_vektor v0) = Inr 999"
    and a: "\<forall>i<50. at_vektor h1 v0 (of_nat i) = at_vektor h0 v0 (of_nat i) \<and>
                            at_vektor h0 v0 (of_nat i) = Inr (map int [0..<50] ! i) \<and>
                            at_vektor h1 v1 (of_nat i) = Inr (map int [0..<50] ! i)"
    by auto
  have "map int [0..<50] ! 49 = 49"
    by (simp del: upt_Suc)
  then have "at_vektor h1 v0 49 = Inr 49" "at_vektor h0 v0 49 = Inr 49" "at_vektor h1 v1 49 = Inr 49"
    using a [rule_format, of 49] by simp_all
  moreover have "unat (size_vektor v0) = 50"
    using built_inv [OF b] by (simp add: vektor_inv_def size_vektor_def)
  ultimately show ?thesis
    using f pb p by blast
qed

text \<open>The nodes written by \<^verbatim>\<open>make_path_\<close> and \<^verbatim>\<open>push_tail_\<close>: one new inner node at
  each depth, with all other slots taken from the old node.\<close>

lemma children_None: "children h None = replicate 32 None"
  by (simp add: children_def inner_def branching_def branching_log_def)

lemma children_inner: "inner h p = Inr cs \<Longrightarrow> children h p = cs"
  by (simp add: children_def)

lemma slot_eq: "slot d i = unat i div 32 ^ d mod 32"
  unfolding slot_def branching_log_def by (simp only: unat_slot pow2_5)

lemma slot_less: "slot d i < 32"
  by (simp add: slot_eq)

lemma slot_level: "unat level = 5 * d \<Longrightarrow>
  unat (drop_bit (unat level) i AND of_nat branching_mask) = slot d i"
  by (simp add: slot_def branching_log_def)

lemma slot_zero:
  assumes m: "unat i mod 32 ^ (d + 1) = 31" and j: "1 \<le> j" "j \<le> d"
  shows "slot j i = 0"
proof -
  define c :: nat where "c = 32 ^ j"
  have c32: "32 \<le> c"
    using j(1) pow32_ge [of "j - 1"] by (simp add: c_def)
  have "(32 :: nat) ^ (j + 1) dvd 32 ^ (d + 1)"
    using j(2) by (intro le_imp_power_dvd) simp
  then have "unat i mod 32 ^ (j + 1) = unat i mod 32 ^ (d + 1) mod 32 ^ (j + 1)"
    by (simp only: mod_mod_cancel)
  also have "\<dots> = 31"
  proof -
    have "(32 :: nat) * 32 \<le> 32 * c"
      using c32 by simp
    then have "31 < (32 :: nat) ^ (j + 1)"
      by (simp add: c_def)
    then show ?thesis
      by (simp only: m mod_less)
  qed
  finally have "unat i mod (c * 32) = 31"
    by (simp add: c_def mult.commute)
  then have e: "31 = (unat i div c mod 32) * c + unat i mod c"
    by (simp only: slot_split [symmetric])
  have "unat i div c mod 32 = 0"
  proof (rule ccontr)
    assume "unat i div c mod 32 \<noteq> 0"
    then have "1 * c \<le> (unat i div c mod 32) * c"
      by (intro mult_le_mono1) simp
    with e c32 show False
      by linarith
  qed
  then show ?thesis
    by (simp only: slot_eq c_def)
qed

lemma inner_SomeD:
  "inner h p = Inr cs \<Longrightarrow> \<exists>a. p = Some a \<and> a < length h \<and> h ! a = Inner cs"
  by (auto simp: inner_def split: option.splits if_splits vektor_node.splits)

lemma path_copied_frame:
  assumes "path_copied g h2 d i old new tail"
    and "\<forall>b\<in>set (spine_nodes h2 d i new). b < length h' \<and> h' ! b = h2 ! b"
  shows "path_copied g h' d i old new tail \<and> spine_nodes h' d i new = spine_nodes h2 d i new"
  using assms
proof (induction d arbitrary: old new)
  case 0
  then show ?case
    by simp
next
  case (Suc d)
  let ?k = "slot (Suc d) i"
  from Suc.prems(1) obtain cs where cs: "inner h2 new = Inr cs"
    and eq: "cs = (children g old)[?k := cs ! ?k]"
    and sub: "path_copied g h2 d i (children g old ! ?k) (cs ! ?k) tail"
    by (auto split: sum.splits)
  from inner_SomeD [OF cs] obtain a where a: "new = Some a" "a < length h2" "h2 ! a = Inner cs"
    by blast
  have ch2: "children h2 new = cs"
    using cs by (rule children_inner)
  have sp2: "spine_nodes h2 (Suc d) i new = a # spine_nodes h2 d i (cs ! ?k)"
    using a(1) ch2 by simp
  have all: "\<forall>b\<in>set (a # spine_nodes h2 d i (cs ! ?k)). b < length h' \<and> h' ! b = h2 ! b"
    using Suc.prems(2) by (simp only: sp2)
  then have "a < length h' \<and> h' ! a = h2 ! a"
    by simp
  then have cs': "inner h' new = Inr cs"
    using a by (simp add: inner_rep)
  then have ch': "children h' new = cs"
    by (rule children_inner)
  have "\<forall>b\<in>set (spine_nodes h2 d i (cs ! ?k)). b < length h' \<and> h' ! b = h2 ! b"
    using all by simp
  from Suc.IH [OF sub this]
  have ih: "path_copied g h' d i (children g old ! ?k) (cs ! ?k) tail"
    "spine_nodes h' d i (cs ! ?k) = spine_nodes h2 d i (cs ! ?k)"
    by simp_all
  have "path_copied g h' (Suc d) i old new tail"
    using cs' eq ih(1) by simp
  moreover have "spine_nodes h' (Suc d) i new = spine_nodes h2 (Suc d) i new"
    using a(1) ch' ch2 ih(2) by simp
  ultimately show ?case
    by simp
qed

lemma replicate32_upd0: "(replicate 32 None)[0 := p] = p # replicate 31 None"
  by (simp add: numeral_eq_Suc)

lemma make_path_spine:
  assumes "unat level = 5 * d" "make_path_' h level node = (p, h')"
    "\<And>j. 1 \<le> j \<Longrightarrow> j \<le> d \<Longrightarrow> slot j i = 0"
  shows "path_copied g h' d i None p node \<and> distinct (spine_nodes h' d i p) \<and>
         set (spine_nodes h' d i p) = {length h ..< length h + d} \<and>
         length h' = length h + d"
  using assms
proof (induction d arbitrary: level p h')
  case 0
  then have "level = 0"
    by (simp add: unat_eq_zero)
  with 0 show ?case
    by (auto simp: make_path_'.simps)
next
  case (Suc d)
  have lv: "unat level = 5 * d + 5"
    using Suc.prems(1) by simp
  then have nz: "level \<noteq> 0"
    by auto
  have lv': "unat (level - of_nat branching_log) = 5 * d"
    using lv by (simp add: log32 unat_sub word_le_nat_alt)
  obtain p1 h1 where rec: "make_path_' h (level - of_nat branching_log) node = (p1, h1)"
    by (cases "make_path_' h (level - of_nat branching_log) node")
  have z: "\<And>j. 1 \<le> j \<Longrightarrow> j \<le> d \<Longrightarrow> slot j i = 0"
    using Suc.prems(3) by simp
  from Suc.IH [OF lv' rec z]
  have ih: "path_copied g h1 d i None p1 node" "distinct (spine_nodes h1 d i p1)"
    "set (spine_nodes h1 d i p1) = {length h ..< length h + d}" "length h1 = length h + d"
    by simp_all
  have res: "p = Some (length h1)" "h' = h1 @ [inner_t [p1]]"
    using Suc.prems(2) nz rec
    by (subst (asm) make_path_'.simps, simp add: make_node_'_def)+
  let ?cs = "p1 # replicate 31 None"
  have node: "h' ! length h1 = Inner ?cs"
    by (simp add: res inner_t_def branching_def branching_log_def)
  have inn: "inner h' p = Inr ?cs"
    unfolding res(1) by (rule inner_rep [OF node]) (simp add: res)
  have k: "slot (Suc d) i = 0"
    using Suc.prems(3) [of "Suc d"] by simp
  have "\<forall>b\<in>set (spine_nodes h1 d i p1). b < length h' \<and> h' ! b = h1 ! b"
    using ih(3,4) by (simp add: res nth_append)
  from path_copied_frame [OF ih(1) this]
  have fr: "path_copied g h' d i None p1 node"
    "spine_nodes h' d i p1 = spine_nodes h1 d i p1"
    by simp_all
  have "path_copied g h' (Suc d) i None p node"
    using inn fr(1) by (simp add: k children_None replicate32_upd0)
  moreover have sp: "spine_nodes h' (Suc d) i p = length h1 # spine_nodes h1 d i p1"
    using fr(2) by (simp add: res(1) k children_inner [OF inn [unfolded res(1)]])
  moreover have "distinct (length h1 # spine_nodes h1 d i p1)"
    using ih(2,3,4) by simp
  moreover have "set (length h1 # spine_nodes h1 d i p1) = {length h ..< length h + Suc d}"
    using ih(3,4) by auto
  moreover have "length h' = length h + Suc d"
    using ih(4) by (simp add: res)
  ultimately show ?case
    by simp
qed

lemma push_tail_spine:
  assumes "rep A h0 (Suc d) parent xs" "rep A h0 0 tail ys" "A \<subseteq> {..<length h0}"
    "h = h0 @ ws"
    "unat level = 5 * Suc d" "Suc d \<le> 12" "length xs + 32 \<le> 32 ^ (d + 2)"
    "unat (size_' v - 1) mod 32 ^ (d + 2) = length xs + 31"
    "push_tail_' h v level parent tail = Inr (new, h')"
  shows "path_copied h0 h' (Suc d) (size_' v - 1) parent new tail \<and>
         distinct (spine_nodes h' (Suc d) (size_' v - 1) new) \<and>
         set (spine_nodes h' (Suc d) (size_' v - 1) new) = {length h ..< length h + Suc d} \<and>
         length h' = length h + Suc d"
  using assms
proof (induction d arbitrary: h ws parent xs level new h')
  case 0
  let ?i = "size_' v - 1"
  from "0.prems"(1) obtain pa cs where pa: "parent = Some pa" "pa \<in> A" "pa < length h0"
    "h0 ! pa = Inner cs" "length cs = 32" "32 dvd length xs"
    unfolding rep_Suc_iff by blast
  have inn0: "inner h0 parent = Inr cs"
    using pa by (simp add: inner_rep)
  have inn: "inner h parent = Inr cs"
    using pa by (simp add: inner_def "0.prems"(4) nth_append)
  have lt64: "\<not> 64 \<le> level"
    using "0.prems"(5) by (simp add: word_le_nat_alt)
  define idx where "idx = length xs div 32 ^ (0 + 1)"
  have slot: "unat (drop_bit (unat level) ?i AND of_nat branching_mask) = idx"
    unfolding idx_def by (rule push_tail_idx(1) [OF "0.prems"(5) pa(6) "0.prems"(8)])
  have k: "slot (Suc 0) ?i = idx"
    using slot_level [OF "0.prems"(5), of ?i] slot by simp
  have idx32: "idx < 32"
    using slot_less [of "Suc 0" ?i] k by simp
  have "level = of_nat (unat level)"
    by simp
  then have l5: "level = of_nat branching_log"
    using "0.prems"(5) by (simp add: branching_log_def)
  define h'' where "h'' = h @ Inner (cs[idx := tail]) # []"
  have res: "push_tail_' h v level parent tail = Inr (Some (length h), h'')"
    using set_slot_fresh [of h cs "[]" idx tail]
    by (subst push_tail_unfold [OF inn lt64 slot]) (simp add: l5 h''_def)
  then have new: "new = Some (length h)" and h': "h' = h''"
    using "0.prems"(9) by simp_all
  have inn': "inner h' new = Inr (cs[idx := tail])"
    unfolding new h' by (rule inner_rep) (simp_all add: h''_def)
  have "path_copied h0 h' (Suc 0) ?i parent new tail"
    using inn' idx32 pa(5) by (simp add: k children_inner [OF inn0])
  moreover have "spine_nodes h' (Suc 0) ?i new = [length h]"
    by (simp add: new)
  moreover have "length h' = length h + Suc 0"
    by (simp add: h' h''_def)
  ultimately show ?case
    by simp
next
  case (Suc d)
  let ?i = "size_' v - 1"
  define c :: nat where "c = 32 ^ (Suc d + 1)"
  have cpos: "0 < c" and cdvd: "32 dvd c"
    by (simp_all add: c_def)
  let ?n = "length xs"
  from Suc.prems(1) obtain pa cs where pa: "parent = Some pa" "pa \<in> A" "pa < length h0"
    "h0 ! pa = Inner cs" "length cs = 32" "32 dvd ?n"
    and kids: "\<forall>k<32. if k * c < ?n
                 then rep A h0 (Suc d) (cs ! k) (take c (drop (k * c) xs))
                 else cs ! k = None"
    unfolding rep_Suc_iff [of _ _ "Suc d"] c_def by blast
  have inn0: "inner h0 parent = Inr cs"
    using pa by (simp add: inner_rep)
  have inn: "inner h parent = Inr cs"
    using pa by (simp add: inner_def Suc.prems(4) nth_append)
  have lt64: "\<not> 64 \<le> level"
    using Suc.prems(5,6) by (simp add: word_le_nat_alt)
  define idx where "idx = ?n div c"
  have slot: "unat (drop_bit (unat level) ?i AND of_nat branching_mask) = idx"
    unfolding idx_def c_def by (rule push_tail_idx(1) [OF Suc.prems(5) pa(6) Suc.prems(8)])
  have k: "slot (Suc (Suc d)) ?i = idx"
    using slot_level [OF Suc.prems(5), of ?i] slot by simp
  have szm: "unat ?i mod c = ?n mod c + 31"
    unfolding c_def by (rule push_tail_idx(2) [OF Suc.prems(5) pa(6) Suc.prems(8)])
  have idx32: "idx < 32"
    using slot_less [of "Suc (Suc d)" ?i] k by simp
  have nsplit: "?n = idx * c + ?n mod c"
    unfolding idx_def by (rule div_mult_mod_eq [symmetric])
  have room: "?n mod c + 32 \<le> c"
    using pa(6) cdvd cpos by (rule chunk_room)
  have lv: "unat level = 5 * Suc d + 5"
    using Suc.prems(5) by simp
  have l5: "level \<noteq> of_nat branching_log"
    using lv by (auto simp: branching_log_def)
  have lv': "unat (level - of_nat branching_log) = 5 * Suc d"
    using lv by (simp add: log32 unat_sub word_le_nat_alt)
  define h1 where "h1 = h @ [Inner cs]"
  have h1eq: "h1 = h0 @ (ws @ [Inner cs])"
    by (simp add: h1_def Suc.prems(4))
  have tail1: "rep A h1 0 tail ys"
    using Suc.prems(2) unfolding h1eq by (rule rep_append)
  have step: "\<exists>nxt zs.
      (case cs ! idx of
         Some c \<Rightarrow> push_tail_' h1 v (level - of_nat branching_log) (Some c) tail
       | None \<Rightarrow> Inr (make_path_' h1 (level - of_nat branching_log) tail))
        = Inr (nxt, h1 @ zs) \<and>
      length zs = Suc d \<and> path_copied h0 (h1 @ zs) (Suc d) ?i (cs ! idx) nxt tail \<and>
      distinct (spine_nodes (h1 @ zs) (Suc d) ?i nxt) \<and>
      set (spine_nodes (h1 @ zs) (Suc d) ?i nxt) = {length h1 ..< length h1 + Suc d}"
  proof (cases "idx * c < ?n")
    case True
    with kids idx32 have ch: "rep A h0 (Suc d) (cs ! idx) (take c (drop (idx * c) xs))"
      by metis
    have "length (drop (idx * c) xs) \<le> c"
      using nsplit room by simp
    then have tk: "take c (drop (idx * c) xs) = drop (idx * c) xs"
      by simp
    have len': "length (drop (idx * c) xs) = ?n mod c"
      using nsplit by simp
    from ch obtain ca where ca: "cs ! idx = Some ca"
      unfolding rep_Suc_iff by blast
    have ch0: "rep A h0 (Suc d) (Some ca) (drop (idx * c) xs)"
      using ch by (simp only: tk ca)
    have ch1: "rep A h1 (Suc d) (Some ca) (drop (idx * c) xs)"
      using ch0 unfolding h1eq by (rule rep_append)
    have A1: "A \<subseteq> {..<length h1}"
      using Suc.prems(3) by (auto simp: h1eq)
    have d12: "Suc d \<le> 12"
      using Suc.prems(6) by simp
    have r1: "length (drop (idx * c) xs) + 32 \<le> 32 ^ (d + 2)"
      using room len' by (simp add: c_def)
    have s1: "unat ?i mod 32 ^ (d + 2) = length (drop (idx * c) xs) + 31"
      using szm len' by (simp add: c_def)
    from push_tail_rep [OF ch1 tail1 A1 lv' d12 r1 s1]
    obtain cs1 zs1 where
      rec: "push_tail_' h1 v (level - of_nat branching_log) (Some ca) tail
         = Inr (Some (length h1), h1 @ Inner cs1 # zs1)"
      and lz: "length zs1 = d"
      by blast
    from Suc.IH [OF ch0 Suc.prems(2,3) h1eq lv' d12 r1 s1 rec]
    have "path_copied h0 (h1 @ Inner cs1 # zs1) (Suc d) ?i (Some ca) (Some (length h1)) tail"
      "distinct (spine_nodes (h1 @ Inner cs1 # zs1) (Suc d) ?i (Some (length h1)))"
      "set (spine_nodes (h1 @ Inner cs1 # zs1) (Suc d) ?i (Some (length h1)))
         = {length h1 ..< length h1 + Suc d}"
      by simp_all
    then show ?thesis
      using ca rec lz
      by (intro exI [of _ "Some (length h1)"] exI [of _ "Inner cs1 # zs1"]) simp
  next
    case False
    with kids idx32 have none: "cs ! idx = None"
      by metis
    have "idx * c = ?n"
      using False nsplit by (metis le_add1 le_neq_implies_less)
    then have "?n mod c = 0"
      by (metis mod_mult_self2_is_0)
    then have m31: "unat ?i mod 32 ^ (Suc d + 1) = 31"
      using szm by (simp add: c_def)
    obtain p h2 where mp: "make_path_' h1 (level - of_nat branching_log) tail = (p, h2)"
      by (cases "make_path_' h1 (level - of_nat branching_log) tail")
    from make_path_rep [OF tail1 lv' mp]
    obtain zs where zs: "h2 = h1 @ zs" "length zs = Suc d"
      by blast
    have "path_copied h0 h2 (Suc d) ?i None p tail \<and> distinct (spine_nodes h2 (Suc d) ?i p) \<and>
         set (spine_nodes h2 (Suc d) ?i p) = {length h1 ..< length h1 + Suc d} \<and>
         length h2 = length h1 + Suc d"
      using lv' mp by (rule make_path_spine) (rule slot_zero [OF m31])
    then show ?thesis
      using none mp zs by (intro exI [of _ p] exI [of _ zs]) simp
  qed
  then obtain nxt zs where nx:
    "(case cs ! idx of
         Some c \<Rightarrow> push_tail_' h1 v (level - of_nat branching_log) (Some c) tail
       | None \<Rightarrow> Inr (make_path_' h1 (level - of_nat branching_log) tail))
        = Inr (nxt, h1 @ zs)"
    "length zs = Suc d"
    and pc: "path_copied h0 (h1 @ zs) (Suc d) ?i (cs ! idx) nxt tail"
    and ds: "distinct (spine_nodes (h1 @ zs) (Suc d) ?i nxt)"
    and st: "set (spine_nodes (h1 @ zs) (Suc d) ?i nxt) = {length h1 ..< length h1 + Suc d}"
    by blast
  define h'' where "h'' = h @ Inner (cs[idx := nxt]) # zs"
  have h1zs: "h1 @ zs = h @ Inner cs # zs"
    by (simp add: h1_def)
  have unf: "push_tail_' h v level parent tail =
      (case (case cs ! idx of
         Some c \<Rightarrow> push_tail_' h1 v (level - of_nat branching_log) (Some c) tail
       | None \<Rightarrow> Inr (make_path_' h1 (level - of_nat branching_log) tail)) of
        Inl e \<Rightarrow> Inl e
      | Inr (next_node, h2) \<Rightarrow> Inr (Some (length h), set_slot h2 (length h) idx next_node))"
    unfolding h1_def using l5 by (subst push_tail_unfold [OF inn lt64 slot]) simp
  have res: "push_tail_' h v level parent tail = Inr (Some (length h), h'')"
    by (simp only: unf nx(1) sum.case prod.case h1zs set_slot_fresh h''_def)
  then have new: "new = Some (length h)" and h': "h' = h''"
    using Suc.prems(9) by simp_all
  have "\<forall>b\<in>set (spine_nodes (h1 @ zs) (Suc d) ?i nxt). b < length h' \<and> h' ! b = (h1 @ zs) ! b"
  proof
    fix b
    assume "b \<in> set (spine_nodes (h1 @ zs) (Suc d) ?i nxt)"
    then have b: "length h1 \<le> b" "b < length h1 + Suc d"
      unfolding st by simp_all
    then have "b \<noteq> length h"
      by (simp add: h1_def)
    then have "h'' ! b = (h1 @ zs) ! b"
      unfolding h''_def h1zs by (rule nth_append_Cons_other)
    moreover have "b < length h''"
      using b(2) nx(2) by (simp add: h''_def h1_def)
    ultimately show "b < length h' \<and> h' ! b = (h1 @ zs) ! b"
      by (simp add: h')
  qed
  from path_copied_frame [OF pc this]
  have fr: "path_copied h0 h' (Suc d) ?i (cs ! idx) nxt tail"
    "spine_nodes h' (Suc d) ?i nxt = spine_nodes (h1 @ zs) (Suc d) ?i nxt"
    by simp_all
  have inn': "inner h' new = Inr (cs[idx := nxt])"
    unfolding new h' by (rule inner_rep) (simp_all add: h''_def)
  have up: "(cs[idx := nxt]) ! idx = nxt"
    using idx32 pa(5) by simp
  have "path_copied h0 h' (Suc (Suc d)) ?i parent new tail"
    unfolding path_copied.simps(2) [of _ _ "Suc d"]
    using fr(1) by (simp add: inn' k children_inner [OF inn0] up)
  moreover have sp: "spine_nodes h' (Suc (Suc d)) ?i new
      = length h # spine_nodes (h1 @ zs) (Suc d) ?i nxt"
    by (simp only: spine_nodes.simps(2) [of _ "Suc d"] new option.case k
        children_inner [OF inn' [unfolded new]] up fr(2))
  moreover have "distinct (length h # spine_nodes (h1 @ zs) (Suc d) ?i nxt)"
    using ds st by (simp add: h1_def)
  moreover have "set (length h # spine_nodes (h1 @ zs) (Suc d) ?i nxt)
      = {length h ..< length h + Suc (Suc d)}"
    using st by (auto simp: h1_def)
  moreover have "length h' = length h + Suc (Suc d)"
    using nx(2) by (simp add: h' h''_def)
  ultimately show ?case
    by (simp only: sp)
qed

lemma push_back_tail_node:
  "push_back h v x = Inr (v', h') \<Longrightarrow> tail_' v' = Some (length h)"
  by (auto simp: push_back_def Let_def make_node_'_def
      split: if_splits sum.splits prod.splits)

lemma slot_one:
  assumes "unat i = 32 ^ (d + 1) + 31"
  shows "slot (Suc d) i = 1"
proof -
  define c :: nat where "c = 32 ^ (d + 1)"
  have c: "32 \<le> c"
    unfolding c_def by (rule pow32_ge)
  have "(c + 31) div c = 1"
    using c by (simp add: div_add_self1)
  then show ?thesis
    using assms by (simp add: slot_eq c_def)
qed

lemma push_back_full_spine:
  fixes h :: "'a::default heap"
  assumes inv: "vektor_inv h v xs" and full: "length xs - toff (length xs) = 32"
    and pb: "push_back h v x = Inr (v', h')"
  shows "distinct (length h # spine_nodes h' (depth v') (size_' v - 1) (root_' v')) \<and>
         set (length h # spine_nodes h' (depth v') (size_' v - 1) (root_' v'))
           = {length h ..< length h'} \<and>
         (if shift_' v' = shift_' v
          then path_copied h h' (depth v) (size_' v - 1) (root_' v) (root_' v') (tail_' v)
          else shift_' v' = shift_' v + of_nat branching_log \<and>
               (\<exists>p. inner h' (root_' v') = Inr (root_' v # p # replicate 30 None) \<and>
                    path_copied h h' (depth v) (size_' v - 1) None p (tail_' v)))"
proof -
  let ?n = "length xs"
  let ?t = "toff ?n"
  let ?i = "size_' v - 1"
  have sh: "unat (shift_' v) < 32"
    using push_back_undefined [OF inv full, of x] pb by auto
  from inv obtain d a ys where sz: "unat (size_' v) = ?n"
    and d: "unat (shift_' v) = 5 * d" "1 \<le> d" "d \<le> 7"
      "rep {..<length h} h d (root_' v) (take ?t xs)" "?t \<le> 32 ^ (d + 1)"
      "1 < d \<longrightarrow> 32 ^ d < ?t"
    and tl: "tail_' v = Some a" "a < length h" "h ! a = Leaf ys" "length ys = 32"
      "take (?n - ?t) ys = drop ?t xs"
    unfolding vektor_inv_def by blast
  have sd: "depth v = d"
    using d(1) by (simp add: depth_def branching_log_def)
  have tf: "toff (Suc ?n) = ?n" "32 dvd ?n" "32 \<le> ?n"
    using toff_full [OF full] by simp_all
  have tle: "?t \<le> ?n"
    by (rule toff_le)
  have nt: "?n = ?t + 32"
    using full tle by linarith
  have tdvd: "32 dvd ?t"
    by (rule toff_dvd)
  have ndiv: "?n div 32 = ?t div 32 + 1"
    using nt tdvd by (metis div_add_self2 zero_neq_numeral)
  have ts: "unat (size_' v - tail_offset_' v) = 32"
    using inv_words(1) [OF inv] full by simp
  have nlt: "\<not> size_' v - tail_offset_' v < of_nat branching"
    using ts by (simp add: word_less_nat_alt branching_def branching_log_def)
  have nsh: "\<not> 32 \<le> shift_' v"
    using sh by (simp add: word_le_nat_alt)
  define h1 where "h1 = h @ [Leaf (x # replicate 31 default)]"
  have mk: "make_node_' h (leaf_t [x]) = (length h, h1)"
    by (simp add: make_node_'_def leaf_t_def branching_def branching_log_def h1_def)
  have cond: "drop_bit branching_log (size_' v) > ucast (push_bit (unat (shift_' v)) (1 :: unsigned))
      \<longleftrightarrow> 32 ^ d < ?t div 32 + 1"
    using overflow_cond [OF sh, of "size_' v"] by (simp only: sz d(1) pow2_5 ndiv)
  let ?A = "{..<length h}"
  have tail0: "rep ?A h 0 (tail_' v) ys"
    using tl by (simp add: rep_0_iff)
  have tail1: "rep ?A h1 0 (tail_' v) ys"
    using tail0 unfolding h1_def by (rule rep_append)
  have root1: "rep ?A h1 d (root_' v) (take ?t xs)"
    unfolding h1_def using d(4) by (rule rep_append)
  have "size_' v \<noteq> 0"
    using sz tf(3) by auto
  then have im: "unat ?i = ?n - 1"
    using sz by (simp add: unat_minus_one)
  have l1: "length h1 = length h + 1"
    by (simp add: h1_def)
  show ?thesis
  proof (cases "32 ^ d < ?t div 32 + 1")
    case True
    have teq: "?t = 32 ^ (d + 1)"
      using pow32_mult_le [OF tdvd True] d(5) by simp
    have i31: "unat ?i = 32 ^ (d + 1) + 31"
      using im nt teq by simp
    have "(31 :: nat) < 32 ^ (d + 1)"
      using pow32_ge [of d] by linarith
    then have m31: "unat ?i mod 32 ^ (d + 1) = 31"
      by (simp only: i31 mod_add_self1 mod_less)
    obtain path h2 where mp: "make_path_' h1 (shift_' v) (tail_' v) = (path, h2)"
      by (cases "make_path_' h1 (shift_' v) (tail_' v)")
    have "path_copied h h2 d ?i None path (tail_' v) \<and> distinct (spine_nodes h2 d ?i path) \<and>
         set (spine_nodes h2 d ?i path) = {length h1 ..< length h1 + d} \<and>
         length h2 = length h1 + d"
      using d(1) mp by (rule make_path_spine) (rule slot_zero [OF m31])
    then have ms: "path_copied h h2 d ?i None path (tail_' v)"
      "distinct (spine_nodes h2 d ?i path)"
      "set (spine_nodes h2 d ?i path) = {length h1 ..< length h1 + d}"
      "length h2 = length h1 + d"
      by simp_all
    define cs where "cs = root_' v # path # replicate 30 None"
    define h3 where "h3 = h2 @ [Inner cs]"
    define w where "w = \<lparr>size_' = size_' v + 1, shift_' = shift_' v + of_nat branching_log,
                        root_' = Some (length h2), tail_' = Some (length h)\<rparr>"
    have res: "push_back h v x = Inr (w, h3)"
      using nlt nsh cond True mk mp
      by (simp add: push_back_def Let_def make_node_'_def inner_t_def branching_def
          branching_log_def w_def h3_def cs_def)
    then have v': "v' = w" and h': "h' = h3"
      using pb by simp_all
    have "\<forall>b\<in>set (spine_nodes h2 d ?i path). b < length h3 \<and> h3 ! b = h2 ! b"
      using ms(3,4) by (simp add: h3_def nth_append)
    from path_copied_frame [OF ms(1) this]
    have fr: "path_copied h h3 d ?i None path (tail_' v)"
      "spine_nodes h3 d ?i path = spine_nodes h2 d ?i path"
      by simp_all
    have inn: "inner h3 (Some (length h2)) = Inr cs"
      by (rule inner_rep) (simp_all add: h3_def)
    have d6: "d \<le> 6"
      using sh d(1) by simp
    have shv: "unat (shift_' v + 5) = 5 * Suc d"
      using d(1) d6 by (simp add: unat_add_lem [THEN iffD1])
    then have dw: "depth w = Suc d"
      by (simp add: depth_def w_def branching_log_def)
    have k: "slot (Suc d) ?i = 1"
      using i31 by (rule slot_one)
    have c1: "cs ! 1 = path"
      by (simp add: cs_def)
    have sp: "spine_nodes h3 (Suc d) ?i (Some (length h2))
        = length h2 # spine_nodes h2 d ?i path"
      by (simp only: spine_nodes.simps(2) option.case k children_inner [OF inn] c1 fr(2))
    have rw: "root_' w = Some (length h2)"
      by (simp add: w_def)
    have sp': "spine_nodes h3 (depth w) ?i (root_' w) = length h2 # spine_nodes h2 d ?i path"
      by (simp only: dw rw sp)
    have A: "distinct (length h # spine_nodes h3 (depth w) ?i (root_' w))"
      unfolding sp' using ms(2,3,4) l1 by simp
    have B: "set (length h # spine_nodes h3 (depth w) ?i (root_' w)) = {length h ..< length h3}"
      unfolding sp' using ms(3,4) l1 by (auto simp: h3_def)
    have ne: "shift_' w \<noteq> shift_' v"
      by (simp add: w_def branching_log_def)
    have C: "shift_' w = shift_' v + of_nat branching_log"
      by (simp add: w_def)
    have D: "\<exists>p. inner h3 (root_' w) = Inr (root_' v # p # replicate 30 None) \<and>
        path_copied h h3 (depth v) ?i None p (tail_' v)"
      using inn fr(1) by (intro exI [of _ path]) (simp add: rw cs_def sd)
    have E: "if shift_' w = shift_' v
          then path_copied h h3 (depth v) ?i (root_' v) (root_' w) (tail_' v)
          else shift_' w = shift_' v + of_nat branching_log \<and>
               (\<exists>p. inner h3 (root_' w) = Inr (root_' v # p # replicate 30 None) \<and>
                    path_copied h h3 (depth v) ?i None p (tail_' v))"
      using ne conjI [OF C D] by (simp only: if_False)
    show ?thesis
      unfolding v' h' by (rule conjI [OF A conjI [OF B E]])
  next
    case False
    have room: "?t + 32 \<le> 32 ^ (d + 1)"
      using pow32_room [OF tdvd False] .
    obtain d' where d': "d = Suc d'"
      using d(2) by (cases d) simp_all
    have lvl: "unat (shift_' v) = 5 * Suc d'"
      using d(1) d' by simp
    have A1: "?A \<subseteq> {..<length h1}"
      by (auto simp: h1_def)
    have d12: "Suc d' \<le> 12"
      using d(3) d' by simp
    have lr: "length (take ?t xs) + 32 \<le> 32 ^ (d' + 2)"
      using room tle d' by simp
    have "?n - 1 < 32 ^ (d' + 2)"
      using room nt d' by simp
    then have sm: "unat ?i mod 32 ^ (d' + 2) = length (take ?t xs) + 31"
      using im nt tle by simp
    from push_tail_rep [OF root1 [unfolded d'] tail1 A1 lvl d12 lr sm]
    obtain cs' zs where
      pt: "push_tail_' h1 v (shift_' v) (root_' v) (tail_' v)
            = Inr (Some (length h1), h1 @ Inner cs' # zs)"
      by blast
    define h2 where "h2 = h1 @ Inner cs' # zs"
    define w where "w = \<lparr>size_' = size_' v + 1, shift_' = shift_' v,
                        root_' = Some (length h1), tail_' = Some (length h)\<rparr>"
    have res: "push_back h v x = Inr (w, h2)"
      using nlt nsh cond False mk pt
      by (simp add: push_back_def Let_def w_def h2_def)
    then have v': "v' = w" and h': "h' = h2"
      using pb by simp_all
    have sub: "?A \<subseteq> {..<length h}"
      by simp
    from push_tail_spine [OF d(4) [unfolded d'] tail0 sub h1_def lvl d12 lr sm
        pt [folded h2_def]]
    have ps: "path_copied h h2 (Suc d') ?i (root_' v) (Some (length h1)) (tail_' v)"
      "distinct (spine_nodes h2 (Suc d') ?i (Some (length h1)))"
      "set (spine_nodes h2 (Suc d') ?i (Some (length h1))) = {length h1 ..< length h1 + Suc d'}"
      "length h2 = length h1 + Suc d'"
      by simp_all
    have dw: "depth w = Suc d'" "depth v = Suc d'"
      using lvl by (simp_all add: depth_def w_def branching_log_def)
    have rw: "root_' w = Some (length h1)" and sw: "shift_' w = shift_' v"
      by (simp_all add: w_def)
    have A: "distinct (length h # spine_nodes h2 (depth w) ?i (root_' w))"
      unfolding dw rw using ps(2,3) l1 by (simp del: spine_nodes.simps)
    have B: "set (length h # spine_nodes h2 (depth w) ?i (root_' w)) = {length h ..< length h2}"
      unfolding dw rw using ps(3,4) l1 by (auto simp del: spine_nodes.simps)
    have E: "if shift_' w = shift_' v
          then path_copied h h2 (depth v) ?i (root_' v) (root_' w) (tail_' v)
          else shift_' w = shift_' v + of_nat branching_log \<and>
               (\<exists>p. inner h2 (root_' w) = Inr (root_' v # p # replicate 30 None) \<and>
                    path_copied h h2 (depth v) ?i None p (tail_' v))"
      using ps(1) by (simp only: sw rw dw(2) simp_thms if_True)
    show ?thesis
      unfolding v' h' by (rule conjI [OF A conjI [OF B E]])
  qed
qed

lemma push_back_nodes:
  fixes h :: "'a::default heap"
  assumes inv: "vektor_inv h v xs" and pb: "push_back h v x = Inr (v', h')"
  shows "\<exists>t ys. tail_' v' = Some t \<and> h' ! t = Leaf ys \<and>
            (if size_' v - tail_offset_' v < of_nat branching
             then set [t] = {length h ..< length h'} \<and>
                  root_' v' = root_' v \<and> shift_' v' = shift_' v
             else distinct (t # spine_nodes h' (depth v') (size_' v - 1) (root_' v')) \<and>
                  set (t # spine_nodes h' (depth v') (size_' v - 1) (root_' v'))
                    = {length h ..< length h'} \<and>
                  (if shift_' v' = shift_' v
                   then path_copied h h' (depth v) (size_' v - 1) (root_' v) (root_' v')
                          (tail_' v)
                   else shift_' v' = shift_' v + of_nat branching_log \<and>
                        (\<exists>p. inner h' (root_' v') = Inr (root_' v # p # replicate 30 None) \<and>
                             path_copied h h' (depth v) (size_' v - 1) None p (tail_' v))))"
proof -
  have t: "tail_' v' = Some (length h)"
    using pb by (rule push_back_tail_node)
  have "vektor_inv h' v' (xs @ [x])"
    using push_back_inv [OF inv pb] by simp
  then obtain ys where ys: "h' ! length h = Leaf ys"
    unfolding vektor_inv_def using t by auto
  have ts: "unat (size_' v - tail_offset_' v) = length xs - toff (length xs)"
    by (rule inv_words(1) [OF inv])
  have c: "size_' v - tail_offset_' v < of_nat branching \<longleftrightarrow> length xs - toff (length xs) < 32"
    by (simp add: word_less_nat_alt ts branching_def branching_log_def)
  show ?thesis
  proof (cases "length xs - toff (length xs) < 32")
    case True
    from push_back_room [OF inv True, of x] pb obtain n' where
      r: "h' = h @ [n']" "root_' v' = root_' v" "shift_' v' = shift_' v"
      by auto
    have "set [length h] = {length h ..< length h'}"
      by (auto simp: r(1))
    then show ?thesis
      using t ys r(2,3) True
      by (intro exI [of _ "length h"] exI [of _ ys]) (simp only: c if_True simp_thms)
  next
    case False
    then have full: "length xs - toff (length xs) = 32"
      using toff_tail [of "length xs"] by linarith
    have cond: "\<not> size_' v - tail_offset_' v < of_nat branching"
      using c False by simp
    note s = push_back_full_spine [OF inv full pb]
    show ?thesis
      apply (intro exI [of _ "length h"] exI [of _ ys] conjI)
        apply (rule t)
       apply (rule ys)
      apply (simp only: cond if_False)
      apply (rule s)
      done
  qed
qed

text \<open>
  Claim C10. For a reachable vector \<open>v\<close>, \<open>push_back(v, x)\<close> returns a vector when \<open>v\<close> has at
  most \<open>2 ^ 35\<close> elements, and whenever it returns one: no node that existed before is
  changed; at least one and at most \<open>shift / L + 2\<close> nodes are allocated, which is at most
  \<open>ceil(log_B(size(v) + 1)) + 2\<close>; and the allocated nodes are exactly the following. When
  the tail has room, the new tail leaf is the only new node, and the root is the old root.
  When the tail is full, the new nodes are the new tail leaf and the inner nodes on the
  path from the new root to the leaf of index \<open>size(v) - 1\<close>, each of them once. Without
  root overflow every node on this path has the slots of the old node at the same place,
  all slots beside the path holding the old pointers, and the path ends in the old tail
  node. On root overflow the shift grows by \<open>L\<close>, the new root holds the old root in slot
  0 and the path in slot 1, all other slots on the path are null, and the path ends in
  the old tail node.
\<close>

theorem push_back_allocation:
  fixes h :: "'a::default heap"
  assumes b: "built h v xs"
  shows "(length xs \<le> 2 ^ 35 \<longrightarrow> (\<exists>v' h'. push_back h v x = Inr (v', h'))) \<and>
         (\<forall>v' h'. push_back h v x = Inr (v', h') \<longrightarrow>
            prefix h h' \<and> 1 \<le> allocated h h' \<and>
            allocated h h' \<le> unat (shift_' v) div branching_log + 2 \<and>
            int (allocated h h')
              \<le> \<lceil>log (real branching) (real (unat (size_vektor v)) + 1)\<rceil> + 2 \<and>
            (\<exists>t ys. tail_' v' = Some t \<and> h' ! t = Leaf ys \<and>
               (if size_' v - tail_offset_' v < of_nat branching
                then set [t] = {length h ..< length h'} \<and>
                     root_' v' = root_' v \<and> shift_' v' = shift_' v
                else distinct (t # spine_nodes h' (depth v') (size_' v - 1) (root_' v')) \<and>
                     set (t # spine_nodes h' (depth v') (size_' v - 1) (root_' v'))
                       = {length h ..< length h'} \<and>
                     (if shift_' v' = shift_' v
                      then path_copied h h' (depth v) (size_' v - 1) (root_' v) (root_' v')
                             (tail_' v)
                      else shift_' v' = shift_' v + of_nat branching_log \<and>
                           (\<exists>p. inner h' (root_' v')
                                  = Inr (root_' v # p # replicate 30 None) \<and>
                                path_copied h h' (depth v) (size_' v - 1) None p
                                  (tail_' v))))))"
proof (intro conjI allI impI)
  let ?n = "length xs"
  have inv: "vektor_inv h v xs"
    using b by (rule built_inv)
  show "\<exists>v' h'. push_back h v x = Inr (v', h')" if "length xs \<le> 2 ^ 35"
    using that by (intro push_back_defined [OF inv]) simp
  fix v' h'
  assume pb: "push_back h v x = Inr (v', h')"
  from inv obtain d where sz: "unat (size_' v) = ?n"
    and d: "unat (shift_' v) = 5 * d" "1 \<le> d" "1 < d \<longrightarrow> 32 ^ d < toff ?n"
    unfolding vektor_inv_def by blast
  from push_back_inv [OF inv pb] obtain zs where
    zs: "h' = h @ zs" "1 \<le> length zs" "length zs \<le> unat (shift_' v) div 5 + 2"
      "length zs = 1 \<or> 32 \<le> ?n"
    by blast
  have al: "allocated h h' = length zs"
    by (simp add: allocated_def zs(1))
  have lg: "int (length zs) \<le> \<lceil>log 32 (real ?n + 1)\<rceil> + 2"
  proof (cases "length zs = 1")
    case True
    have "int 0 \<le> \<lceil>log 32 (real ?n + 1)\<rceil>"
      by (rule depth_le_ceiling_log) simp
    with True show ?thesis
      by simp
  next
    case False
    then have n32: "32 \<le> ?n"
      using zs(4) by simp
    have "32 ^ d \<le> ?n + 1"
    proof (cases "1 < d")
      case True
      then have "32 ^ d < toff ?n"
        using d(3) by simp
      then show ?thesis
        using toff_le [of ?n] by linarith
    next
      case False
      then have "d = 1"
        using d(2) by simp
      then show ?thesis
        using n32 by simp
    qed
    then have "int d \<le> \<lceil>log 32 (real ?n + 1)\<rceil>"
      by (rule depth_le_ceiling_log)
    moreover have "length zs \<le> d + 2"
      using zs(3) d(1) by simp
    ultimately show ?thesis
      by linarith
  qed
  show "prefix h h'"
    using zs(1) by simp
  show "1 \<le> allocated h h'"
    using zs(2) al by simp
  show "allocated h h' \<le> unat (shift_' v) div branching_log + 2"
    using zs(3) al by (simp add: branching_log_def)
  show "int (allocated h h')
      \<le> \<lceil>log (real branching) (real (unat (size_vektor v)) + 1)\<rceil> + 2"
    using lg al sz by (simp add: branching_def branching_log_def size_vektor_def)
  show "\<exists>t ys. tail_' v' = Some t \<and> h' ! t = Leaf ys \<and>
          (if size_' v - tail_offset_' v < of_nat branching
           then set [t] = {length h ..< length h'} \<and>
                root_' v' = root_' v \<and> shift_' v' = shift_' v
           else distinct (t # spine_nodes h' (depth v') (size_' v - 1) (root_' v')) \<and>
                set (t # spine_nodes h' (depth v') (size_' v - 1) (root_' v'))
                  = {length h ..< length h'} \<and>
                (if shift_' v' = shift_' v
                 then path_copied h h' (depth v) (size_' v - 1) (root_' v) (root_' v')
                        (tail_' v)
                 else shift_' v' = shift_' v + of_nat branching_log \<and>
                      (\<exists>p. inner h' (root_' v')
                             = Inr (root_' v # p # replicate 30 None) \<and>
                           path_copied h h' (depth v) (size_' v - 1) None p
                             (tail_' v))))"
    using inv pb by (rule push_back_nodes)
qed

theorem push_back_allocation_witness:
  "\<exists>v h v' h'. from_list (map int [0..<1088]) = Inr (v, h) \<and>
     push_back h v 1088 = Inr (v', h') \<and> prefix h h' \<and>
     1 \<le> allocated h h' \<and> allocated h h' \<le> 4 \<and>
     tail_' v' = Some (length h) \<and>
     path_copied h h' 2 1087 (root_' v) (root_' v') (tail_' v)"
proof -
  let ?xs = "map int [0..<1088]"
  have len: "length ?xs = 1088"
    by simp
  have small: "length ?xs \<le> 2 ^ 35"
    by simp
  then obtain v h where f: "from_list ?xs = Inr (v, h)"
    using from_list_defined by blast
  then have b: "built h v ?xs"
    by (rule from_list_built)
  note t = push_back_allocation [OF b, of 1088]
  from t small obtain v' h' where pb: "push_back h v 1088 = Inr (v', h')"
    by blast
  note r = t [THEN conjunct2, rule_format, OF pb]
  have inv: "vektor_inv h v ?xs"
    using b by (rule built_inv)
  have inv': "vektor_inv h' v' (?xs @ [1088])"
    using push_back_inv [OF inv pb] by simp
  have s: "shift_' v = 10"
    by (rule shift_by_size(2) [OF inv]) simp_all
  have s': "shift_' v' = 10"
    by (rule shift_by_size(2) [OF inv']) simp_all
  have dv: "depth v = 2"
    by (simp add: depth_def s branching_log_def)
  have "unat (size_' v) = length ?xs"
    using inv by (simp only: vektor_inv_def)
  then have "unat (size_' v) = 1088"
    by (simp only: len)
  then have sz: "size_' v = 1088"
    by (simp add: word_unat_eq_iff)
  have "toff 1088 = 1056"
    by (simp add: toff_def)
  then have "unat (size_' v - tail_offset_' v) = 32"
    using inv_words(1) [OF inv] by (simp only: len)
  then have c: "\<not> size_' v - tail_offset_' v < of_nat branching"
    by (simp add: word_less_nat_alt branching_def branching_log_def)
  have a: "unat (shift_' v) div branching_log + 2 = 4"
    by (simp add: s branching_log_def)
  from r have 1: "prefix h h'" "1 \<le> allocated h h'" "allocated h h' \<le> 4"
    by (simp_all only: a [symmetric])
  from r obtain tn where "tail_' v' = Some tn"
    "set (tn # spine_nodes h' (depth v') (size_' v - 1) (root_' v')) = {length h ..< length h'}"
    "path_copied h h' (depth v) (size_' v - 1) (root_' v) (root_' v') (tail_' v)"
    using c s s' by (simp only: if_False if_True simp_thms) blast
  then have 2: "path_copied h h' 2 1087 (root_' v) (root_' v') (tail_' v)"
    by (simp only: dv sz) simp
  have 3: "tail_' v' = Some (length h)"
    using pb by (rule push_back_tail_node)
  show ?thesis
    using f pb 1 2 3 by blast
qed

section \<open>The claims about cursors\<close>

lemma size_word:
  assumes "vektor_inv h v xs"
  shows "size_' v = of_nat (length xs)" and "unat (size_' v) = length xs"
proof -
  show u: "unat (size_' v) = length xs"
    using assms by (simp add: vektor_inv_def)
  have "of_nat (unat (size_' v)) = size_' v"
    by simp
  then show "size_' v = of_nat (length xs)"
    by (simp only: u)
qed

lemma sub_and_mask: "(w :: size_t) - (w - (w AND of_nat branching_mask)) = w AND 31"
  by (simp add: mask64)

text \<open>
  Claim C6. For every reachable vector \<open>v\<close> and every \<open>k\<close> below its size, \<open>begin(v)\<close>
  returns a cursor, advancing it by \<open>k\<close> returns a cursor, and dereferencing that cursor
  yields the same element as \<open>at(v, k)\<close>: the \<open>k\<close>-th element appended.
\<close>

theorem advance_begin_dereference:
  fixes h :: "'a::default heap"
  assumes b: "built h v xs" and k: "k < length xs"
  shows "\<exists>first it. begin_vektor h v = Inr first \<and> advance h first (int k) = Inr it \<and>
           dereference h it = Inr (xs ! k) \<and> at_vektor h v (of_nat k) = Inr (xs ! k)"
proof -
  have inv: "vektor_inv h v xs"
    using b by (rule built_inv)
  note sz = size_word [OF inv]
  let ?wk = "of_nat k :: size_t"
  have uk: "unat ?wk = k"
    using unat_of_nat_small [OF inv, of k] k by simp
  have klt: "?wk < size_' v"
    using k uk sz(2) by (simp add: word_less_nat_alt)
  have "0 < length xs"
    using k by linarith
  then have zlt: "(0 :: size_t) < size_' v"
    using sz(2) by (simp add: word_less_nat_alt)
  from array_for_inv [OF inv zlt] obtain a0 ys0 where
    a0: "array_for_' h v 0 = Inr a0" "a0 < length h" "h ! a0 = Leaf ys0" "ys0 ! 0 = xs ! 0"
    by auto
  from array_for_inv [OF inv klt] obtain a ys where
    a: "array_for_' h v ?wk = Inr a" "a < length h" "h ! a = Leaf ys"
      "ys ! (k mod 32) = xs ! k"
    by (auto simp: uk)
  define first where "first = \<lparr>v_' = v, i_' = 0, base_' = 0, curr_' = (a0, 0)\<rparr>"
  have bg: "begin_vektor h v = Inr first"
    using a0(1) by (simp add: begin_vektor_def first_def)
  have kle: "?wk \<le> size_' v"
    using klt by (rule order.strict_implies_order)
  have as1: "int k \<le> 0 \<or> i_' first + of_int (int k) \<le> size_' (v_' first)"
    using kle by (simp add: first_def)
  have as2: "int k \<ge> 0 \<or> of_int (- int k) \<le> i_' first"
    by simp
  have "\<exists>it. advance h first (int k) = Inr it \<and> dereference h it = Inr (xs ! k)"
  proof (cases "k = 0")
    case True
    then have "advance h first (int k) = Inr first"
      by (simp add: advance_def first_def Let_def branching_def branching_log_def)
    moreover have "dereference h first = Inr (xs ! 0)"
      using a0 by (simp add: dereference_def first_def branching_def branching_log_def)
    ultimately show ?thesis
      using True by simp
  next
    case False
    then have nz: "?wk \<noteq> 0"
      using uk by auto
    define it where "it = \<lparr>v_' = v, i_' = ?wk, base_' = ?wk - (?wk AND of_nat branching_mask),
      curr_' = (a, uint (?wk AND 31))\<rparr>"
    have "advance h first (int k) = Inr it"
      using as1 as2 nz a(1)
      by (simp add: advance_def first_def Let_def it_def sub_and_mask)
    moreover have "uint (?wk AND 31) = int (k mod 32)"
      by (simp only: uint_nat unat_and_31 uk)
    then have "dereference h it = Inr (xs ! k)"
      using a by (simp add: dereference_def it_def branching_def branching_log_def)
    ultimately show ?thesis
      by simp
  qed
  with bg at_built [OF b k] show ?thesis
    by blast
qed

theorem advance_begin_dereference_witness:
  "\<exists>v h first it. from_list (map int [0..<100]) = Inr (v, h) \<and> begin_vektor h v = Inr first \<and>
     advance h first 70 = Inr it \<and> dereference h it = Inr 70 \<and> at_vektor h v 70 = Inr 70"
proof -
  have "length (map int [0..<100]) \<le> 2 ^ 35"
    by simp
  then obtain v h where f: "from_list (map int [0..<100]) = Inr (v, h)"
    using from_list_defined by blast
  then have b: "built h v (map int [0..<100])"
    by (rule from_list_built)
  have "map int [0..<100] ! 70 = 70"
    by (simp del: upt_Suc)
  with advance_begin_dereference [OF b, of 70] f show ?thesis
    by auto
qed

lemma last_index_words:
  assumes inv: "vektor_inv h v xs" and pos: "0 < length xs" and dv: "32 dvd length xs"
  shows "size_' v - 1 < size_' v"
    and "(size_' v - 1) AND 31 = 31"
    and "size_' v \<noteq> 0"
proof -
  note sz = size_word [OF inv]
  show nz: "size_' v \<noteq> 0"
    using sz(2) pos by auto
  then show "size_' v - 1 < size_' v"
    by (simp add: word_less_nat_alt unat_minus_one unat_gt_0)
  have u: "unat (size_' v - 1) = length xs - 1"
    using nz sz(2) by (simp add: unat_minus_one)
  from dv pos obtain m where m: "length xs = 32 * m" "0 < m"
    by (auto elim: dvdE)
  then have "length xs - 1 = (m - 1) * 32 + 31"
    by (cases m) simp_all
  then have "(length xs - 1) mod 32 = 31"
    by (simp only: mod_mult_add) simp
  then have "unat ((size_' v - 1) AND 31) = unat (31 :: size_t)"
    by (simp add: unat_and_31 u)
  then show "(size_' v - 1) AND 31 = 31"
    by (simp only: word_unat_eq_iff)
qed

lemma advance_recompute:
  assumes "n \<le> 0 \<or> i_' it + of_int n \<le> size_' (v_' it)"
    and "n \<ge> 0 \<or> of_int (- n) \<le> i_' it"
    and "i_' it + of_int n = j"
    and "\<not> (j \<le> base_' it \<and> j - base_' it < of_nat branching)"
  shows "advance h it n =
     (case array_for_' h (v_' it) j of
        Inl e \<Rightarrow> Inl e
      | Inr a \<Rightarrow>
          Inr (it\<lparr>i_' := j, base_' := j - (j AND of_nat branching_mask),
                 curr_' := (a, uint (j - (j - (j AND of_nat branching_mask))))\<rparr>))"
  using assms by (auto simp: advance_def Let_def split: sum.splits)

text \<open>
  Claim C9. Moving a cursor to the one-past-the-end position can fail the assertion
  \<open>index < size_\<close> of \<open>array_for_\<close>. For every reachable non-empty vector whose size is a
  multiple of \<open>B\<close>, incrementing a cursor at index \<open>size - 1\<close> (such as the begin cursor
  advanced by \<open>size - 1\<close>) calls \<open>array_for_(size)\<close> and fails there; for every reachable
  non-empty vector, advancing the begin cursor by \<open>size\<close> recomputes the leaf, calls
  \<open>array_for_(size)\<close> and fails there; and constructing the end cursor of the empty vector
  passes the wrapped index \<open>size_ - 1 = 2 ^ 64 - 1\<close> to \<open>array_for_\<close>, which fails.
\<close>

theorem cursor_at_end_fails_assertion:
  fixes h :: "'a::default heap"
  shows "(\<forall>v xs. built h v xs \<longrightarrow> 0 < length xs \<longrightarrow> 32 dvd length xs \<longrightarrow>
            (\<forall>it. v_' it = v \<longrightarrow> i_' it = size_' v - 1 \<longrightarrow>
                  base_' it = i_' it - (i_' it AND of_nat branching_mask) \<longrightarrow>
                  increment h it = Inl (AssertionFailed ''index < size_'')) \<and>
            (\<exists>first it. begin_vektor h v = Inr first \<and>
                  advance h first (int (length xs) - 1) = Inr it \<and>
                  v_' it = v \<and> i_' it = size_' v - 1 \<and>
                  base_' it = i_' it - (i_' it AND of_nat branching_mask) \<and>
                  increment h it = Inl (AssertionFailed ''index < size_''))) \<and>
         (\<forall>v xs. built h v xs \<longrightarrow> 0 < length xs \<longrightarrow>
            (\<exists>first. begin_vektor h v = Inr first \<and>
                  advance h first (int (length xs)) = Inl (AssertionFailed ''index < size_''))) \<and>
         size_' empty_' - 1 = 18446744073709551615 \<and>
         array_for_' h empty_' (size_' empty_' - 1) = Inl (AssertionFailed ''index < size_'') \<and>
         end_vektor h empty_' = Inl (AssertionFailed ''index < size_'')"
proof (intro conjI allI impI)
  fix v xs it
  assume b: "built h v xs" and pos: "0 < length xs" and dv: "32 dvd length xs"
  have inv: "vektor_inv h v xs"
    using b by (rule built_inv)
  note lw = last_index_words [OF inv pos dv]
  show inc: "increment h it = Inl (AssertionFailed ''index < size_'')"
    if it: "v_' it = v" "i_' it = size_' v - 1"
      "base_' it = i_' it - (i_' it AND of_nat branching_mask)" for it
  proof -
    have bs: "base_' it = size_' v - 1 - 31"
      using it(2,3) lw(2) by (simp add: mask64)
    have "size_' v - (size_' v - 1 - 31) = 32"
      by simp
    then have "\<not> i_' it + 1 - base_' it < of_nat branching"
      using it(2) bs by (simp add: branching_def branching_log_def)
    then show ?thesis
      using it(1,2) lw(1) by (simp add: increment_def Let_def array_for_'_def)
  qed
  note sz = size_word [OF inv]
  have zlt: "(0 :: size_t) < size_' v"
    using pos sz(2) by (simp add: word_less_nat_alt)
  from array_for_inv [OF inv zlt] obtain a0 where a0: "array_for_' h v 0 = Inr a0"
    by auto
  from array_for_inv [OF inv lw(1)] obtain a where a: "array_for_' h v (size_' v - 1) = Inr a"
    by auto
  define first where "first = \<lparr>v_' = v, i_' = 0, base_' = 0, curr_' = (a0, 0)\<rparr>"
  have bg: "begin_vektor h v = Inr first"
    using a0 by (simp add: begin_vektor_def first_def)
  have n1: "of_int (int (length xs) - 1) = size_' v - 1"
    by (simp add: sz(1))
  have ne0: "size_' v - 1 \<noteq> 0"
    using lw(2) by auto
  have le: "size_' v - 1 \<le> size_' v"
    using lw(1) by (rule order.strict_implies_order)
  define it where "it = first\<lparr>i_' := size_' v - 1,
    base_' := size_' v - 1 - ((size_' v - 1) AND of_nat branching_mask),
    curr_' := (a, uint (size_' v - 1 - (size_' v - 1 - ((size_' v - 1) AND of_nat branching_mask))))\<rparr>"
  have adv: "advance h first (int (length xs) - 1) = Inr it"
  proof -
    have j: "i_' first + of_int (int (length xs) - 1) = size_' v - 1"
      unfolding n1 by (simp add: first_def)
    have p1: "int (length xs) - 1 \<le> 0 \<or>
        i_' first + of_int (int (length xs) - 1) \<le> size_' (v_' first)"
      unfolding j using le by (simp add: first_def)
    have p2: "int (length xs) - 1 \<ge> 0 \<or> of_int (- (int (length xs) - 1)) \<le> i_' first"
      using pos by simp
    have p4: "\<not> (size_' v - 1 \<le> base_' first \<and> size_' v - 1 - base_' first < of_nat branching)"
      using ne0 by (simp add: first_def)
    show ?thesis
      unfolding advance_recompute [OF p1 p2 j p4] using a by (simp add: first_def it_def)
  qed
  have "increment h it = Inl (AssertionFailed ''index < size_'')"
    by (rule inc) (simp_all add: it_def first_def)
  with bg adv show "\<exists>first it. begin_vektor h v = Inr first \<and>
                  advance h first (int (length xs) - 1) = Inr it \<and>
                  v_' it = v \<and> i_' it = size_' v - 1 \<and>
                  base_' it = i_' it - (i_' it AND of_nat branching_mask) \<and>
                  increment h it = Inl (AssertionFailed ''index < size_'')"
    by (intro exI [of _ first] exI [of _ it]) (simp add: it_def first_def)
next
  fix v xs
  assume b: "built h v xs" and pos: "0 < length xs"
  have inv: "vektor_inv h v xs"
    using b by (rule built_inv)
  note sz = size_word [OF inv]
  have zlt: "(0 :: size_t) < size_' v"
    using pos sz(2) by (simp add: word_less_nat_alt)
  then have nz: "size_' v \<noteq> 0"
    by auto
  from array_for_inv [OF inv zlt] obtain a0 where a0: "array_for_' h v 0 = Inr a0"
    by auto
  define first where "first = \<lparr>v_' = v, i_' = 0, base_' = 0, curr_' = (a0, 0)\<rparr>"
  have bg: "begin_vektor h v = Inr first"
    using a0 by (simp add: begin_vektor_def first_def)
  have n1: "of_int (int (length xs)) = size_' v"
    by (simp add: sz(1))
  have "advance h first (int (length xs)) = Inl (AssertionFailed ''index < size_'')"
  proof -
    have j: "i_' first + of_int (int (length xs)) = size_' v"
      unfolding n1 by (simp add: first_def)
    have p1: "int (length xs) \<le> 0 \<or> i_' first + of_int (int (length xs)) \<le> size_' (v_' first)"
      unfolding j by (simp add: first_def)
    have p2: "int (length xs) \<ge> 0 \<or> of_int (- int (length xs)) \<le> i_' first"
      by simp
    have p4: "\<not> (size_' v \<le> base_' first \<and> size_' v - base_' first < of_nat branching)"
      using nz by (simp add: first_def)
    show ?thesis
      unfolding advance_recompute [OF p1 p2 j p4] by (simp add: first_def array_for_'_def)
  qed
  with bg show "\<exists>first. begin_vektor h v = Inr first \<and>
      advance h first (int (length xs)) = Inl (AssertionFailed ''index < size_'')"
    by blast
next
  show "size_' empty_' - 1 = 18446744073709551615"
    by (simp add: empty_'_def)
  show "array_for_' h empty_' (size_' empty_' - 1) = Inl (AssertionFailed ''index < size_'')"
    by (simp add: array_for_'_def empty_'_def)
  show "end_vektor h empty_' = Inl (AssertionFailed ''index < size_'')"
    by (simp add: end_vektor_def array_for_'_def empty_'_def Let_def)
qed

theorem cursor_at_end_fails_assertion_witness:
  "\<exists>v h first it. from_list (map int [0..<32]) = Inr (v, h) \<and>
     begin_vektor h v = Inr first \<and> advance h first 31 = Inr it \<and>
     increment h it = Inl (AssertionFailed ''index < size_'') \<and>
     advance h first 32 = Inl (AssertionFailed ''index < size_'') \<and>
     end_vektor h empty_' = Inl (AssertionFailed ''index < size_'')"
proof -
  have "length (map int [0..<32]) \<le> 2 ^ 35"
    by simp
  then obtain v h where f: "from_list (map int [0..<32]) = Inr (v, h)"
    using from_list_defined by blast
  then have b: "built h v (map int [0..<32])"
    by (rule from_list_built)
  note t = cursor_at_end_fails_assertion [of h]
  have pos: "0 < length (map int [0..<32])" and dv: "32 dvd length (map int [0..<32])"
    by simp_all
  from t [THEN conjunct1, rule_format, OF b pos dv, THEN conjunct2]
  obtain first it where 1: "begin_vektor h v = Inr first"
    "advance h first (int (length (map int [0..<32])) - 1) = Inr it"
    "increment h it = Inl (AssertionFailed ''index < size_'')"
    by blast
  from t [THEN conjunct2, THEN conjunct1, rule_format, OF b pos]
  obtain first' where 2: "begin_vektor h v = Inr first'"
    "advance h first' (int (length (map int [0..<32]))) = Inl (AssertionFailed ''index < size_'')"
    by blast
  from t have 3: "end_vektor h empty_' = Inl (AssertionFailed ''index < size_'')"
    by (elim conjE)
  from 1(1) 2(1) have e: "first' = first"
    by simp
  have "advance h first 31 = Inr it"
    using 1(2) by simp
  moreover have "advance h first 32 = Inl (AssertionFailed ''index < size_'')"
    using 2(2) e by simp
  ultimately show ?thesis
    using f 1(1,3) 3 by blast
qed

section \<open>Cursors of a reachable vector\<close>

text \<open>All indices of a block of 32 lie in the same leaf.\<close>

lemma descend_block:
  "unat level = 5 * d \<Longrightarrow> unat i div 32 = unat j div 32 \<Longrightarrow>
   descend h level i p = descend h level j p"
proof (induction d arbitrary: level p)
  case 0
  then have "level = 0"
    by (simp add: unat_eq_zero)
  then show ?case
    by (simp add: descend.simps)
next
  case (Suc d)
  have lv: "unat level = 5 * d + 5"
    using Suc.prems(1) by simp
  have lv': "unat (level - of_nat branching_log) = 5 * d"
    using lv by (simp add: log32 unat_sub word_le_nat_alt)
  have "unat level = 5 * (d + 1)"
    using lv by simp
  then have p: "(2 :: nat) ^ unat level = 32 ^ (d + 1)"
    by (simp only: pow2_5)
  have "unat i div 32 ^ (d + 1) = unat i div 32 div 32 ^ d" for i :: size_t
    by (simp add: div_mult2_eq)
  then have "unat i div 32 ^ (d + 1) = unat j div 32 ^ (d + 1)"
    using Suc.prems(2) by simp
  then have slot: "unat (drop_bit (unat level) i AND of_nat branching_mask)
      = unat (drop_bit (unat level) j AND of_nat branching_mask)"
    by (simp only: unat_slot p)
  show ?case
    by (subst (1 2) descend.simps)
      (simp add: slot Suc.IH [OF lv' Suc.prems(2)] split: sum.splits)
qed

lemma array_for_block:
  assumes inv: "vektor_inv h v xs" and i: "i < size_' v" and j: "j < size_' v"
    and blk: "unat i div 32 = unat j div 32"
  shows "array_for_' h v i = array_for_' h v j"
proof -
  from inv obtain d where sz: "unat (size_' v) = length xs" and d: "unat (shift_' v) = 5 * d"
    unfolding vektor_inv_def by blast
  let ?t = "toff (length xs)"
  obtain q where q: "?t = 32 * q"
    using toff_dvd [of "length xs"] by (auto elim: dvdE)
  have "?t \<le> unat w \<longleftrightarrow> q \<le> unat w div 32" for w :: size_t
    unfolding q by (simp add: less_eq_div_iff_mult_less_eq mult.commute)
  then have "tail_offset_' v \<le> i \<longleftrightarrow> tail_offset_' v \<le> j"
    using blk by (simp add: word_le_nat_alt unat_tail_offset sz)
  moreover have "descend h (shift_' v) i (root_' v) = descend h (shift_' v) j (root_' v)"
    using d blk by (rule descend_block)
  ultimately show ?thesis
    using i j by (simp add: array_for_'_def)
qed

lemma word_of_nat_facts:
  assumes inv: "vektor_inv h v xs" and i: "i \<le> length xs"
  shows "unat (of_nat i :: size_t) = i"
    and "(of_nat i :: size_t) < size_' v \<longleftrightarrow> i < length xs"
    and "(of_nat i :: size_t) AND of_nat branching_mask = of_nat (i mod 32)"
    and "(of_nat i :: size_t) - of_nat (i mod 32) = of_nat (i - i mod 32)"
proof -
  show u: "unat (of_nat i :: size_t) = i"
    using unat_of_nat_small [OF inv i] .
  show "(of_nat i :: size_t) < size_' v \<longleftrightarrow> i < length xs"
    using size_word(2) [OF inv] u by (simp add: word_less_nat_alt)
  have "unat ((of_nat i :: size_t) AND 31) = i mod 32"
    by (simp only: unat_and_31 u)
  moreover have "unat (of_nat (i mod 32) :: size_t) = i mod 32"
    by (simp add: unat_of_nat)
  ultimately show "(of_nat i :: size_t) AND of_nat branching_mask = of_nat (i mod 32)"
    by (simp only: mask64 word_unat_eq_iff)
  have "i mod 32 \<le> i"
    by simp
  then show "(of_nat i :: size_t) - of_nat (i mod 32) = of_nat (i - i mod 32)"
    by (simp only: of_nat_diff)
qed

lemma unat_of_nat64: "m < 2 ^ 64 \<Longrightarrow> unat (of_nat m :: size_t) = m"
  by (simp add: unat_of_nat)

lemma of_nat_less32: "m < 2 ^ 64 \<Longrightarrow> (of_nat m :: size_t) < of_nat branching \<longleftrightarrow> m < 32"
  by (simp add: word_less_nat_alt unat_of_nat branching_def branching_log_def)

lemma cursor_begin:
  assumes inv: "vektor_inv h v xs" and pos: "0 < length xs"
  shows "\<exists>it. begin_vektor h v = Inr it \<and> cursor_at h v (length xs) 0 it"
proof -
  have "(0 :: size_t) < size_' v"
    using word_of_nat_facts(2) [OF inv, of 0] pos by simp
  from array_for_inv [OF inv this] obtain a where "array_for_' h v 0 = Inr a"
    by blast
  then show ?thesis
    using pos by (simp add: begin_vektor_def cursor_at_def)
qed

lemma cursor_end:
  assumes inv: "vektor_inv h v xs" and pos: "0 < length xs"
  shows "\<exists>it. end_vektor h v = Inr it \<and> cursor_at h v (length xs) (length xs) it"
proof -
  let ?n = "length xs"
  note sz = size_word [OF inv]
  note w = word_of_nat_facts [OF inv le_refl]
  have "1 \<le> ?n"
    using pos by linarith
  then have "(of_nat (?n - 1) :: size_t) = of_nat ?n - of_nat 1"
    by (rule of_nat_diff)
  then have n1: "size_' v - 1 = of_nat (?n - 1)"
    by (simp add: sz(1))
  have "?n - 1 \<le> ?n"
    by simp
  from word_of_nat_facts(2) [OF inv this]
  have "(of_nat (?n - 1) :: size_t) < size_' v \<longleftrightarrow> ?n - 1 < ?n" .
  moreover have "?n - 1 < ?n"
    using pos by linarith
  ultimately have "(of_nat (?n - 1) :: size_t) < size_' v"
    by blast
  from array_for_inv [OF inv this] obtain a where a: "array_for_' h v (of_nat (?n - 1)) = Inr a"
    by blast
  have a': "array_for_' h v (size_' v - 1) = Inr a"
    unfolding n1 by (rule a)
  define it where "it = \<lparr>v_' = v, i_' = size_' v,
    base_' = size_' v - (size_' v AND of_nat branching_mask),
    curr_' = (a, uint (size_' v - (size_' v - (size_' v AND of_nat branching_mask))))\<rparr>"
  have e: "end_vektor h v = Inr it"
    by (simp add: end_vektor_def Let_def a' it_def)
  have c1: "i_' it = of_nat ?n"
    by (simp add: it_def sz(1))
  have c2: "base_' it = of_nat (?n - ?n mod 32)"
    unfolding it_def by (simp only: iterator.simps sz(1) w(3) w(4))
  have "unat (size_' v AND 31) = ?n mod 32"
    by (simp only: unat_and_31 sz(2))
  then have c3: "snd (curr_' it) = int (?n mod 32)"
    unfolding it_def by (simp only: iterator.simps snd_conv sub_and_mask uint_nat)
  have c4: "array_for_' h v (of_nat (if ?n < ?n then ?n else ?n - 1)) = Inr (fst (curr_' it))"
    using a by (simp add: it_def)
  have "cursor_at h v ?n ?n it"
    unfolding cursor_at_def using c1 c2 c3 c4 by (simp add: it_def)
  with e show ?thesis
    by blast
qed

lemma cursor_deref:
  assumes inv: "vektor_inv h v xs" and c: "cursor_at h v (length xs) i it" and i: "i < length xs"
  shows "dereference h it = Inr (xs ! i)"
proof -
  have lt: "(of_nat i :: size_t) < size_' v"
    using word_of_nat_facts(2) [OF inv, of i] i by simp
  have u: "unat (of_nat i :: size_t) = i"
    using word_of_nat_facts(1) [OF inv, of i] i by simp
  from array_for_inv [OF inv lt] obtain a ys where
    a: "array_for_' h v (of_nat i) = Inr a" "a < length h" "h ! a = Leaf ys"
      "ys ! (i mod 32) = xs ! i"
    by (auto simp: u)
  from c i a(1) have "curr_' it = (a, int (i mod 32))"
    by (cases "curr_' it") (simp add: cursor_at_def)
  then show ?thesis
    using a by (simp add: dereference_def branching_def branching_log_def)
qed

lemma cursor_equal:
  assumes inv: "vektor_inv h v xs"
    and c: "cursor_at h v (length xs) i it" "cursor_at h v (length xs) j it'"
    and le: "i \<le> length xs" "j \<le> length xs"
  shows "equal it it' \<longleftrightarrow> i = j"
proof -
  have "unat (of_nat i :: size_t) = i" "unat (of_nat j :: size_t) = j"
    using word_of_nat_facts(1) [OF inv] le by simp_all
  then have "(of_nat i :: size_t) = of_nat j \<longleftrightarrow> i = j"
    by (metis)
  then show ?thesis
    using c by (simp add: equal_def cursor_at_def)
qed

lemma cursor_atD:
  assumes "cursor_at h v n i it"
  obtains a where "it = \<lparr>v_' = v, i_' = of_nat i, base_' = of_nat (i - i mod 32),
                         curr_' = (a, int (i mod 32))\<rparr>"
    and "array_for_' h v (of_nat (if i < n then i else n - 1)) = Inr a"
proof -
  obtain a off where c: "curr_' it = (a, off)"
    by (cases "curr_' it")
  have "it = \<lparr>v_' = v, i_' = of_nat i, base_' = of_nat (i - i mod 32),
                         curr_' = (a, int (i mod 32))\<rparr>"
    using assms c by (cases it) (simp add: cursor_at_def)
  moreover have "array_for_' h v (of_nat (if i < n then i else n - 1)) = Inr a"
    using assms c by (simp add: cursor_at_def)
  ultimately show ?thesis
    by (rule that)
qed

lemma cursor_atI:
  "array_for_' h v (of_nat (if i < n then i else n - 1)) = Inr a \<Longrightarrow>
   cursor_at h v n i \<lparr>v_' = v, i_' = of_nat i, base_' = of_nat (i - i mod 32),
                         curr_' = (a, int (i mod 32))\<rparr>"
  by (simp add: cursor_at_def)

lemma mod32_Suc: "i mod 32 \<noteq> 31 \<Longrightarrow> Suc i mod 32 = Suc (i mod 32) \<and> Suc i div 32 = i div 32"
  for i :: nat
  by (auto simp: mod_Suc div_Suc)

lemma mod32_Suc_last: "i mod 32 = 31 \<Longrightarrow> Suc i mod 32 = 0 \<and> i - i mod 32 + 32 = Suc i"
  for i :: nat
proof -
  assume a: "i mod 32 = 31"
  have "i mod 32 \<le> i"
    by simp
  with a show ?thesis
    by (simp add: mod_Suc)
qed

lemma cursor_increment:
  assumes inv: "vektor_inv h v xs" and c: "cursor_at h v (length xs) i it"
    and i: "i < length xs" and ok: "Suc i < length xs \<or> Suc i mod 32 \<noteq> 0"
  shows "\<exists>it'. increment h it = Inr it' \<and> cursor_at h v (length xs) (Suc i) it'"
proof -
  let ?n = "length xs"
  from c obtain a where it: "it = \<lparr>v_' = v, i_' = of_nat i, base_' = of_nat (i - i mod 32),
                         curr_' = (a, int (i mod 32))\<rparr>"
    and a: "array_for_' h v (of_nat (if i < ?n then i else ?n - 1)) = Inr a"
    by (rule cursor_atD)
  have ai: "array_for_' h v (of_nat i) = Inr a"
    using a i by simp
  have bound: "?n < 2 ^ 64"
    using unat_size_bound [OF inv] by simp
  have ilt: "(of_nat i :: size_t) < size_' v"
    using word_of_nat_facts(2) [OF inv, of i] i by simp
  have i1: "(of_nat i :: size_t) + 1 = of_nat (Suc i)"
    by simp
  have "i - i mod 32 \<le> Suc i"
    by simp
  then have "(of_nat (Suc i) :: size_t) - of_nat (i - i mod 32) = of_nat (Suc i - (i - i mod 32))"
    by (rule of_nat_diff [symmetric])
  moreover have "Suc i - (i - i mod 32) = Suc (i mod 32)"
    using mod_less_eq_dividend [of i 32] by linarith
  ultimately have df: "(of_nat (Suc i) :: size_t) - of_nat (i - i mod 32) = of_nat (Suc (i mod 32))"
    by simp
  have cond: "(of_nat (Suc (i mod 32)) :: size_t) < of_nat branching \<longleftrightarrow> Suc (i mod 32) < 32"
    by (rule of_nat_less32) simp
  show ?thesis
  proof (cases "i mod 32 = 31")
    case False
    then have lt: "Suc (i mod 32) < 32"
      using mod_less_divisor [of 32 i] by linarith
    note m = mod32_Suc [OF False]
    have inc: "increment h it = Inr \<lparr>v_' = v, i_' = of_nat (Suc i), base_' = of_nat (i - i mod 32),
                         curr_' = (a, int (i mod 32) + 1)\<rparr>"
      unfolding increment_def it using ilt lt
      by (simp only: iterator.simps iterator.update_convs Let_def i1 df cond if_True if_False
          not_not fst_conv snd_conv simp_thms)
    have "array_for_' h v (of_nat (if Suc i < ?n then Suc i else ?n - 1)) = Inr a"
    proof (cases "Suc i < ?n")
      case True
      have "(of_nat (Suc i) :: size_t) < size_' v"
        using word_of_nat_facts(2) [OF inv, of "Suc i"] True by simp
      moreover have "unat (of_nat (Suc i) :: size_t) div 32 = unat (of_nat i :: size_t) div 32"
        using word_of_nat_facts(1) [OF inv, of "Suc i"] word_of_nat_facts(1) [OF inv, of i]
          True m by simp
      ultimately have "array_for_' h v (of_nat (Suc i)) = array_for_' h v (of_nat i)"
        using ilt by (intro array_for_block [OF inv])
      with ai True show ?thesis
        by simp
    next
      case False
      then have "?n - 1 = i"
        using i by linarith
      with ai False show ?thesis
        by simp
    qed
    then have "cursor_at h v ?n (Suc i) \<lparr>v_' = v, i_' = of_nat (Suc i),
        base_' = of_nat (Suc i - Suc i mod 32), curr_' = (a, int (Suc i mod 32))\<rparr>"
      by (rule cursor_atI)
    moreover have "Suc i - Suc i mod 32 = i - i mod 32" "int (Suc i mod 32) = int (i mod 32) + 1"
      using m by simp_all
    ultimately show ?thesis
      using inc by simp
  next
    case True
    note m = mod32_Suc_last [OF True]
    have nlt: "\<not> Suc (i mod 32) < 32"
      using True by simp
    have si: "Suc i < ?n"
      using ok m by simp
    have "(of_nat (Suc i) :: size_t) < size_' v"
      using word_of_nat_facts(2) [OF inv, of "Suc i"] si by simp
    from array_for_inv [OF inv this] obtain a' where
      a': "array_for_' h v (of_nat (Suc i)) = Inr a'"
      by blast
    have bs: "(of_nat (i - i mod 32) :: size_t) + of_nat branching = of_nat (Suc i)"
    proof -
      have "(of_nat (i - i mod 32) :: size_t) + of_nat 32 = of_nat (i - i mod 32 + 32)"
        by simp
      then show ?thesis
        using m by (simp add: branching_def branching_log_def)
    qed
    have inc: "increment h it = Inr \<lparr>v_' = v, i_' = of_nat (Suc i), base_' = of_nat (Suc i),
                         curr_' = (a', 0)\<rparr>"
      unfolding increment_def it using ilt nlt a'
      by (simp only: iterator.simps iterator.update_convs Let_def i1 df cond bs if_True if_False
          not_not fst_conv snd_conv simp_thms sum.case)
    have "array_for_' h v (of_nat (if Suc i < ?n then Suc i else ?n - 1)) = Inr a'"
      using a' si by simp
    then have "cursor_at h v ?n (Suc i) \<lparr>v_' = v, i_' = of_nat (Suc i),
        base_' = of_nat (Suc i - Suc i mod 32), curr_' = (a', int (Suc i mod 32))\<rparr>"
      by (rule cursor_atI)
    then show ?thesis
      using inc m by simp
  qed
qed

lemma cursor_increment_fails:
  assumes inv: "vektor_inv h v xs" and c: "cursor_at h v (length xs) i it"
    and i: "Suc i = length xs" and dv: "32 dvd length xs"
  shows "increment h it = Inl (AssertionFailed ''index < size_'')"
proof -
  let ?n = "length xs"
  from c obtain a where it: "it = \<lparr>v_' = v, i_' = of_nat i, base_' = of_nat (i - i mod 32),
                         curr_' = (a, int (i mod 32))\<rparr>"
    by (rule cursor_atD)
  have ilt: "(of_nat i :: size_t) < size_' v"
    using word_of_nat_facts(2) [OF inv, of i] i by simp
  have i1: "(of_nat i :: size_t) + 1 = of_nat (Suc i)"
    by simp
  have "Suc i mod 32 = 0"
    using dv i by simp
  then have m31: "i mod 32 = 31"
    using mod_less_divisor [of 32 i] by (simp add: mod_Suc split: if_splits)
  have "i - i mod 32 \<le> Suc i"
    by simp
  then have "(of_nat (Suc i) :: size_t) - of_nat (i - i mod 32) = of_nat (Suc i - (i - i mod 32))"
    by (rule of_nat_diff [symmetric])
  moreover have "Suc i - (i - i mod 32) = 32"
    using mod_less_eq_dividend [of i 32] m31 by linarith
  ultimately have df: "(of_nat (Suc i) :: size_t) - of_nat (i - i mod 32) = of_nat 32"
    by simp
  have cond: "\<not> (of_nat 32 :: size_t) < of_nat branching"
    by (simp add: branching_def branching_log_def)
  have sz: "of_nat (Suc i) = size_' v"
    using size_word(1) [OF inv] i by simp
  have af: "array_for_' h v (size_' v) = Inl (AssertionFailed ''index < size_'')"
    by (simp add: array_for_'_def)
  have i1': "(of_nat i :: size_t) + 1 = size_' v"
    by (simp only: i1 sz)
  have df': "size_' v - of_nat (i - i mod 32) = of_nat 32"
    using df by (simp only: sz)
  show ?thesis
    unfolding increment_def it using ilt cond af
    by (simp only: iterator.simps iterator.update_convs Let_def i1' df' if_True if_False
        not_not fst_conv snd_conv simp_thms sum.case)
qed

lemma mod32_pred: "0 < i mod 32 \<Longrightarrow> (i - 1) mod 32 = i mod 32 - 1 \<and> (i - 1) div 32 = i div 32"
  for i :: nat
proof -
  assume a: "0 < i mod 32"
  then obtain j where j: "i = Suc j"
    by (cases i) auto
  have "j mod 32 \<noteq> 31"
    using a j by (auto simp: mod_Suc)
  from mod32_Suc [OF this] j show ?thesis
    by simp
qed

lemma mod32_pred_first:
  "0 < i \<Longrightarrow> i mod 32 = 0 \<Longrightarrow> (i - 1) mod 32 = 31 \<and> 32 \<le> i \<and> i - 1 - 31 = i - 32"
  for i :: nat
proof -
  assume p: "0 < i" and m: "i mod 32 = 0"
  then obtain q where q: "i = 32 * q" "0 < q"
    by (auto simp: mod_eq_0_iff_dvd)
  then have "i - 1 = (q - 1) * 32 + 31"
    by (cases q) simp_all
  then have "(i - 1) mod 32 = 31"
    by (simp only: mod_mult_add) simp
  moreover have "32 \<le> i"
    using q by simp
  ultimately show ?thesis
    by simp
qed

lemma cursor_decrement:
  assumes inv: "vektor_inv h v xs" and c: "cursor_at h v (length xs) i it"
    and i: "0 < i" "i \<le> length xs"
  shows "\<exists>it'. decrement h it = Inr it' \<and> cursor_at h v (length xs) (i - 1) it'"
proof -
  let ?n = "length xs"
  from c obtain a where it: "it = \<lparr>v_' = v, i_' = of_nat i, base_' = of_nat (i - i mod 32),
                         curr_' = (a, int (i mod 32))\<rparr>"
    and a: "array_for_' h v (of_nat (if i < ?n then i else ?n - 1)) = Inr a"
    by (rule cursor_atD)
  have ui: "unat (of_nat i :: size_t) = i"
    using word_of_nat_facts(1) [OF inv i(2)] .
  have pos: "(of_nat i :: size_t) > 0"
    using ui i(1) by (simp add: word_greater_zero_iff unat_eq_zero [symmetric])
  have "1 \<le> i"
    using i(1) by linarith
  then have "(of_nat (i - 1) :: size_t) = of_nat i - of_nat 1"
    by (rule of_nat_diff)
  then have i1: "(of_nat i :: size_t) - 1 = of_nat (i - 1)"
    by simp
  have le1: "i - 1 \<le> ?n" and lt1: "i - 1 < ?n"
    using i by linarith+
  have up: "unat (of_nat (i - 1) :: size_t) = i - 1"
    using word_of_nat_facts(1) [OF inv le1] .
  have "i - i mod 32 \<le> ?n"
    using i(2) by linarith
  then have ub: "unat (of_nat (i - i mod 32) :: size_t) = i - i mod 32"
    by (rule word_of_nat_facts(1) [OF inv])
  have cond: "(of_nat (i - 1) :: size_t) \<ge> of_nat (i - i mod 32) \<longleftrightarrow> 0 < i mod 32"
    using i(1) mod_less_eq_dividend [of i 32] by (simp only: word_le_nat_alt up ub) linarith
  have plt: "(of_nat (i - 1) :: size_t) < size_' v"
    using word_of_nat_facts(2) [OF inv le1] lt1 by blast
  show ?thesis
  proof (cases "0 < i mod 32")
    case True
    note m = mod32_pred [OF True]
    have dec: "decrement h it = Inr \<lparr>v_' = v, i_' = of_nat (i - 1), base_' = of_nat (i - i mod 32),
                         curr_' = (a, int (i mod 32) - 1)\<rparr>"
      unfolding decrement_def it using pos True
      by (simp only: iterator.simps iterator.update_convs Let_def i1 cond if_True if_False
          not_not fst_conv snd_conv simp_thms)
    have "array_for_' h v (of_nat (i - 1)) = Inr a"
    proof (cases "i < ?n")
      case True
      have "(of_nat i :: size_t) < size_' v"
        using word_of_nat_facts(2) [OF inv i(2)] True by blast
      moreover have "unat (of_nat (i - 1) :: size_t) div 32 = unat (of_nat i :: size_t) div 32"
        using m by (simp only: up ui)
      ultimately have "array_for_' h v (of_nat (i - 1)) = array_for_' h v (of_nat i)"
        using plt by (intro array_for_block [OF inv])
      with a True show ?thesis
        by simp
    next
      case False
      then have "i = ?n"
        using i(2) by linarith
      with a show ?thesis
        by simp
    qed
    then have "array_for_' h v (of_nat (if i - 1 < ?n then i - 1 else ?n - 1)) = Inr a"
      using lt1 by simp
    then have "cursor_at h v ?n (i - 1) \<lparr>v_' = v, i_' = of_nat (i - 1),
        base_' = of_nat (i - 1 - (i - 1) mod 32), curr_' = (a, int ((i - 1) mod 32))\<rparr>"
      by (rule cursor_atI)
    moreover have "i - 1 - (i - 1) mod 32 = i - i mod 32"
      using m True by simp
    moreover have "int ((i - 1) mod 32) = int (i mod 32) - 1"
      using m True by simp
    ultimately show ?thesis
      using dec by simp
  next
    case False
    then have z: "i mod 32 = 0"
      by simp
    note m = mod32_pred_first [OF i(1) z]
    from array_for_inv [OF inv plt] obtain a' where
      a': "array_for_' h v (of_nat (i - 1)) = Inr a'"
      by blast
    have "32 \<le> i - i mod 32"
      using m z by simp
    then have "(of_nat (i - i mod 32 - 32) :: size_t) = of_nat (i - i mod 32) - of_nat 32"
      by (rule of_nat_diff)
    then have bs: "(of_nat (i - i mod 32) :: size_t) - of_nat branching = of_nat (i - 32)"
      using z by (simp add: branching_def branching_log_def)
    have ib: "int branching - 1 = 31"
      by (simp add: branching_def branching_log_def)
    have dec: "decrement h it = Inr \<lparr>v_' = v, i_' = of_nat (i - 1), base_' = of_nat (i - 32),
                         curr_' = (a', 31)\<rparr>"
      unfolding decrement_def it using pos False a'
      by (simp only: iterator.simps iterator.update_convs Let_def i1 cond bs ib if_True if_False
          not_not fst_conv snd_conv simp_thms sum.case)
    have "array_for_' h v (of_nat (if i - 1 < ?n then i - 1 else ?n - 1)) = Inr a'"
      using a' lt1 by simp
    then have "cursor_at h v ?n (i - 1) \<lparr>v_' = v, i_' = of_nat (i - 1),
        base_' = of_nat (i - 1 - (i - 1) mod 32), curr_' = (a', int ((i - 1) mod 32))\<rparr>"
      by (rule cursor_atI)
    then show ?thesis
      using dec m by simp
  qed
qed

text \<open>The two traversals: from a cursor at index \<open>i\<close>, the forward loop yields the
  elements from \<open>i\<close> on, unless the number of elements is a multiple of 32, where the
  increment into the end position fails; the reverse loop yields the elements below
  \<open>i\<close>, last first.\<close>

declare iterate.simps [simp del]
declare iterate_reverse.simps [simp del]

lemma iterate_drop:
  assumes inv: "vektor_inv h v xs" and stop: "cursor_at h v (length xs) (length xs) stop"
    and nd: "\<not> 32 dvd length xs"
  shows "cursor_at h v (length xs) i it \<Longrightarrow> i \<le> length xs \<Longrightarrow>
    iterate h it stop = Inr (drop i xs)"
proof (induction "length xs - i" arbitrary: i it)
  case 0
  then have "i = length xs"
    by simp
  then have "equal it stop"
    using cursor_equal [OF inv "0.prems"(1) stop] by simp
  then show ?case
    using \<open>i = length xs\<close> by (subst iterate.simps) simp
next
  case (Suc k)
  then have i: "i < length xs"
    by simp
  have ne: "\<not> equal it stop"
    using cursor_equal [OF inv Suc.prems(1) stop] i by simp
  have de: "dereference h it = Inr (xs ! i)"
    using inv Suc.prems(1) i by (rule cursor_deref)
  have ok: "Suc i < length xs \<or> Suc i mod 32 \<noteq> 0"
    using nd i by (cases "Suc i = length xs") (auto simp: mod_eq_0_iff_dvd)
  from cursor_increment [OF inv Suc.prems(1) i ok] obtain it' where
    inc: "increment h it = Inr it'" and c': "cursor_at h v (length xs) (Suc i) it'"
    by blast
  have "k = length xs - Suc i"
    using Suc.hyps(2) by simp
  from Suc.hyps(1) [OF this c'] i have "iterate h it' stop = Inr (drop (Suc i) xs)"
    by simp
  then have "iterate h it stop = Inr (xs ! i # drop (Suc i) xs)"
    using ne de inc by (subst iterate.simps) simp
  then show ?case
    using i by (simp add: Cons_nth_drop_Suc)
qed

lemma iterate_fails:
  assumes inv: "vektor_inv h v xs" and stop: "cursor_at h v (length xs) (length xs) stop"
    and dv: "32 dvd length xs"
  shows "cursor_at h v (length xs) i it \<Longrightarrow> i < length xs \<Longrightarrow>
    iterate h it stop = Inl (AssertionFailed ''index < size_'')"
proof (induction "length xs - i" arbitrary: i it)
  case 0
  then show ?case
    by simp
next
  case (Suc k)
  note i = Suc.prems(2)
  have ne: "\<not> equal it stop"
    using cursor_equal [OF inv Suc.prems(1) stop] i by simp
  have de: "dereference h it = Inr (xs ! i)"
    using inv Suc.prems(1) i by (rule cursor_deref)
  show ?case
  proof (cases "Suc i = length xs")
    case True
    have "increment h it = Inl (AssertionFailed ''index < size_'')"
      using inv Suc.prems(1) True dv by (rule cursor_increment_fails)
    then show ?thesis
      using ne de by (subst iterate.simps) simp
  next
    case False
    then have si: "Suc i < length xs"
      using i by linarith
    then have ok: "Suc i < length xs \<or> Suc i mod 32 \<noteq> 0"
      by simp
    from cursor_increment [OF inv Suc.prems(1) i ok] obtain it' where
      inc: "increment h it = Inr it'" and c': "cursor_at h v (length xs) (Suc i) it'"
      by blast
    have "k = length xs - Suc i"
      using Suc.hyps(2) by simp
    from Suc.hyps(1) [OF this c' si]
    have "iterate h it' stop = Inl (AssertionFailed ''index < size_'')" .
    then show ?thesis
      using ne de inc by (subst iterate.simps) simp
  qed
qed

lemma iterate_reverse_take:
  assumes inv: "vektor_inv h v xs" and first: "cursor_at h v (length xs) 0 first"
  shows "cursor_at h v (length xs) i it \<Longrightarrow> i \<le> length xs \<Longrightarrow>
    iterate_reverse h it first = Inr (rev (take i xs))"
proof (induction i arbitrary: it)
  case 0
  then have "equal it first"
    using cursor_equal [OF inv "0.prems"(1) first] by simp
  then show ?case
    by (subst iterate_reverse.simps) simp
next
  case (Suc i)
  have ne: "\<not> equal it first"
    using cursor_equal [OF inv Suc.prems(1) first] Suc.prems(2) by simp
  from cursor_decrement [OF inv Suc.prems(1) _ Suc.prems(2)] obtain tmp where
    dec: "decrement h it = Inr tmp" and c': "cursor_at h v (length xs) i tmp"
    by auto
  have i: "i < length xs"
    using Suc.prems(2) by simp
  have de: "dereference h tmp = Inr (xs ! i)"
    using inv c' i by (rule cursor_deref)
  have "iterate_reverse h tmp first = Inr (rev (take i xs))"
    using Suc.IH [OF c'] i by simp
  then have "iterate_reverse h it first = Inr (xs ! i # rev (take i xs))"
    using ne dec de by (subst iterate_reverse.simps) simp
  then show ?case
    using i by (simp add: take_Suc_conv_app_nth)
qed

lemma forward_built:
  fixes h :: "'a::default heap"
  assumes b: "built h v xs"
  shows "forward h v =
    (if 32 dvd length xs then Inl (AssertionFailed ''index < size_'') else Inr xs)"
proof (cases "length xs = 0")
  case True
  have inv: "vektor_inv h v xs"
    using b by (rule built_inv)
  have "size_' v = 0"
    using size_word(1) [OF inv] True by simp
  then have "begin_vektor h v = Inl (AssertionFailed ''index < size_'')"
    by (simp add: begin_vektor_def array_for_'_def)
  then show ?thesis
    using True by (simp add: forward_def)
next
  case False
  then have pos: "0 < length xs"
    by simp
  have inv: "vektor_inv h v xs"
    using b by (rule built_inv)
  from cursor_begin [OF inv pos] obtain first where
    f: "begin_vektor h v = Inr first" "cursor_at h v (length xs) 0 first"
    by blast
  from cursor_end [OF inv pos] obtain stop where
    s: "end_vektor h v = Inr stop" "cursor_at h v (length xs) (length xs) stop"
    by blast
  show ?thesis
  proof (cases "32 dvd length xs")
    case True
    from iterate_fails [OF inv s(2) True f(2) pos] f(1) s(1) True show ?thesis
      by (simp add: forward_def)
  next
    case False
    from iterate_drop [OF inv s(2) False f(2)] f(1) s(1) False show ?thesis
      by (simp add: forward_def)
  qed
qed

lemma backward_built:
  fixes h :: "'a::default heap"
  assumes b: "built h v xs"
  shows "backward h v =
    (if xs = [] then Inl (AssertionFailed ''index < size_'') else Inr (rev xs))"
proof (cases "xs = []")
  case True
  have inv: "vektor_inv h v xs"
    using b by (rule built_inv)
  have "size_' v = 0"
    using size_word(1) [OF inv] True by simp
  then have "end_vektor h v = Inl (AssertionFailed ''index < size_'')"
    by (simp add: end_vektor_def array_for_'_def Let_def)
  then show ?thesis
    using True by (simp add: backward_def)
next
  case False
  then have pos: "0 < length xs"
    by simp
  have inv: "vektor_inv h v xs"
    using b by (rule built_inv)
  from cursor_begin [OF inv pos] obtain first where
    f: "begin_vektor h v = Inr first" "cursor_at h v (length xs) 0 first"
    by blast
  from cursor_end [OF inv pos] obtain stop where
    s: "end_vektor h v = Inr stop" "cursor_at h v (length xs) (length xs) stop"
    by blast
  from iterate_reverse_take [OF inv f(2) s(2)] f(1) s(1) False show ?thesis
    by (simp add: backward_def)
qed

text \<open>
  Claim C5 says that \<open>advance\<close> produces the cursor state of the specification's
  algorithm. The code tests \<open>i_ <= base_\<close> where the specification tests \<open>base \<le> i\<close>: on the
  vector of one element, advancing the begin cursor by 1, to the end position, the
  specification's algorithm steps \<open>curr\<close> by one, and the code recomputes the leaf with
  \<open>array_for_(1)\<close>, whose assertion fails.
\<close>

theorem advance_to_end_fails:
  "from_list [7 :: int] = Inr (vektor_one, heap_one) \<and>
   begin_vektor heap_one vektor_one = Inr begin_one \<and>
   advance heap_one begin_one 1 = Inl (AssertionFailed ''index < size_'') \<and>
   advance_spec heap_one begin_one 1 = Inr (begin_one\<lparr>i_' := 1, curr_' := (2, 1)\<rparr>)"
  by code_simp

text \<open>
  Claim C7 says that iterating forward from \<open>begin(v)\<close> to \<open>end(v)\<close> yields the elements in
  order and iterating over the reverse cursors yields them in reverse order. On the vector
  of the 32 elements 0..31 the forward iteration fails: the last increment calls
  \<open>array_for_(32)\<close>, whose assertion fails. (The reverse iteration of that vector, and both
  iterations of a vector of three elements, are as claimed; on the empty vector both fail,
  in \<open>begin()\<close> and \<open>end()\<close>.) For every reachable vector, \<open>forward_built\<close> and
  \<open>backward_built\<close> above give the result of the two loops: the forward loop yields the
  elements in order exactly when their number is not a multiple of 32, and the reverse
  loop yields them in reverse order exactly when the vector is not empty.
\<close>

theorem forward_fails_on_full_last_leaf:
  "forward_of (from_list (map int [0..<32])) = Inl (AssertionFailed ''index < size_'') \<and>
   backward_of (from_list (map int [0..<32])) = Inr (rev (map int [0..<32])) \<and>
   forward_of (from_list [10, 20, 30 :: int]) = Inr [10, 20, 30] \<and>
   backward_of (from_list [10, 20, 30 :: int]) = Inr [30, 20, 10] \<and>
   forward_of (from_list ([] :: int list)) = Inl (AssertionFailed ''index < size_'') \<and>
   backward_of (from_list ([] :: int list)) = Inl (AssertionFailed ''index < size_'')"
  by code_simp

text \<open>
  Claim C8 says that for the empty vector \<open>size()\<close> is 0, \<open>empty()\<close> is true and the cursors
  of \<open>begin()\<close> and \<open>end()\<close> compare equal. The first two hold; \<open>begin()\<close> calls
  \<open>array_for_(0)\<close> and \<open>end()\<close> calls \<open>array_for_(size_ - 1)\<close>, and both fail the assertion
  \<open>index < size_\<close>, so neither produces a cursor.
\<close>

theorem empty_begin_end_fail:
  "from_list [] = Inr (empty_', heap0) \<and>
   size_vektor empty_' = 0 \<and> empty_vektor empty_' \<and>
   begin_vektor h empty_' = Inl (AssertionFailed ''index < size_'') \<and>
   end_vektor h empty_' = Inl (AssertionFailed ''index < size_'')"
  by (simp add: from_list_def size_vektor_def empty_vektor_def begin_vektor_def end_vektor_def
      array_for_'_def empty_'_def Let_def)

end
